theory Spec2Isabelle
  imports Main "HOL-Library.Multiset"
begin

section \<open>Objectives and the catalog\<close>

text \<open>
  The catalog file exports \<^verbatim>\<open>data[tier][]\<close>: for every tier (the index in the outer
  array) the raw objectives of that tier, each a name and a list of types (tags).
\<close>

record RawObjective =
  name :: string
  types :: "string list"

text \<open>
  \<^verbatim>\<open>class Objective\<close> adds the tier. Its field \<^verbatim>\<open>types_set\<close> is \<^verbatim>\<open>new Set(types)\<close>; no
  field of an objective is assigned after construction, so the set is modelled as a
  function of the list. The constructor's \<^verbatim>\<open>expect(... !== undefined)\<close> checks cannot fail
  on a value of this type.
\<close>

record Objective = RawObjective +
  tier :: nat

definition types_set :: "Objective \<Rightarrow> string set" where
  "types_set obj = set (types obj)"

definition includes_types :: "Objective \<Rightarrow> string list \<Rightarrow> bool" where
  "includes_types obj ts = list_all (\<lambda>t. t \<in> types_set obj) ts"

definition excludes_types :: "Objective \<Rightarrow> string list \<Rightarrow> bool" where
  "excludes_types obj ts = list_all (\<lambda>t. t \<notin> types_set obj) ts"

text \<open>
  \<^verbatim>\<open>bingo_pool = bingo_data.flatMap((tier_pool, tier) => tier_pool.map(obj => new
  Objective(tier, obj.name, obj.types)))\<close>: the module constant, as a function of the
  imported catalog.
\<close>

definition bingo_pool :: "RawObjective list list \<Rightarrow> Objective list" where
  "bingo_pool bingo_data =
     concat (map (\<lambda>(tier, tier_pool).
                    map (\<lambda>obj. \<lparr>name = name obj, types = types obj, tier = tier\<rparr>) tier_pool)
                 (enumerate 0 bingo_data))"

text \<open>The catalog shipped with the repository (\<^verbatim>\<open>objectives/example.js\<close>).\<close>

definition data :: "RawObjective list list" where
  "data =
    [ [],
      [\<lparr>name = ''A'', types = [''a'']\<rparr>, \<lparr>name = ''B'', types = [''a'', ''b'']\<rparr>,
       \<lparr>name = ''C'', types = [''c'']\<rparr>],
      [\<lparr>name = ''D'', types = [''c'', ''d'']\<rparr>, \<lparr>name = ''E'', types = [''d'', ''e'']\<rparr>,
       \<lparr>name = ''F'', types = [''d'']\<rparr>],
      [\<lparr>name = ''G'', types = [''e'']\<rparr>, \<lparr>name = ''H'', types = [''e'', ''f'']\<rparr>,
       \<lparr>name = ''I'', types = [''g'']\<rparr>, \<lparr>name = ''J'', types = [''j'']\<rparr>],
      [\<lparr>name = ''K'', types = [''k'']\<rparr>, \<lparr>name = ''L'', types = [''l'']\<rparr>,
       \<lparr>name = ''M'', types = [''m'']\<rparr>, \<lparr>name = ''N'', types = [''n'']\<rparr>],
      [\<lparr>name = ''O'', types = [''o'']\<rparr>, \<lparr>name = ''P'', types = [''p'']\<rparr>,
       \<lparr>name = ''Q'', types = [''q'']\<rparr>, \<lparr>name = ''R'', types = [''r'']\<rparr>],
      [\<lparr>name = ''S'', types = [''s'']\<rparr>, \<lparr>name = ''T'', types = [''t'']\<rparr>,
       \<lparr>name = ''U'', types = [''u'']\<rparr>, \<lparr>name = ''V'', types = [''v'']\<rparr>],
      [\<lparr>name = ''W'', types = [''w'']\<rparr>, \<lparr>name = ''X'', types = [''x'']\<rparr>,
       \<lparr>name = ''Y'', types = [''y'']\<rparr>, \<lparr>name = ''Z'', types = [''z'']\<rparr>] ]"

section \<open>Intervals\<close>

text \<open>
  \<^verbatim>\<open>class Interval\<close>: an inclusive interval \<^verbatim>\<open>{min, max}\<close>. The bounds are JavaScript
  numbers, that is IEEE doubles. Tiers are array indices and the generator is called with
  integer bounds, so a bound is modelled as an integer.
\<close>

record Interval =
  min_itv :: int
  max_itv :: int

definition clone :: "Interval \<Rightarrow> Interval" where
  "clone this = \<lparr>min_itv = min_itv this, max_itv = max_itv this\<rparr>"

definition contains :: "Interval \<Rightarrow> int \<Rightarrow> bool" where
  "contains this v \<longleftrightarrow> v \<ge> min_itv this \<and> v \<le> max_itv this"

text \<open>
  \<^verbatim>\<open>sub\<close> as the constraint calculator calls it: on a fresh \<^verbatim>\<open>clone()\<close> of the per-line range,
  with an argument that is another object, and with the differences taken exactly. The
  method itself, which assigns to the receiver and rounds, is \<open>Interval_sub\<close> below.
\<close>

definition sub :: "Interval \<Rightarrow> Interval \<Rightarrow> Interval" where
  "sub this other =
     \<lparr>min_itv = min_itv this - max_itv other, max_itv = max_itv this - min_itv other\<rparr>"

definition intersection :: "Interval \<Rightarrow> Interval \<Rightarrow> Interval" where
  "intersection a b =
     \<lparr>min_itv = max (min_itv a) (min_itv b), max_itv = min (max_itv a) (max_itv b)\<rparr>"

definition MAX_SAFE_INTEGER :: int where
  "MAX_SAFE_INTEGER = 9007199254740991"

definition MIN_SAFE_INTEGER :: int where
  "MIN_SAFE_INTEGER = - 9007199254740991"

definition safeIntegerRange :: Interval where
  "safeIntegerRange = \<lparr>min_itv = MIN_SAFE_INTEGER, max_itv = MAX_SAFE_INTEGER\<rparr>"

definition valueOf :: "int \<Rightarrow> Interval" where
  "valueOf v = \<lparr>min_itv = v, max_itv = v\<rparr>"

text \<open>
  The arithmetic of JavaScript on integer-valued doubles. The sum or difference of two
  such numbers is the exact integer rounded to the nearest double: to 53 significant bits,
  a tie going to the even significand. \<open>bit_length n\<close> is the number of binary digits of
  \<open>n\<close>. (Beyond \<open>2^1024\<close> JavaScript gives \<^verbatim>\<open>Infinity\<close>; nothing below comes near it.)
\<close>

function bit_length :: "int \<Rightarrow> nat" where
  "bit_length n = (if n \<le> 0 then 0 else Suc (bit_length (n div 2)))"
  by pat_completeness auto

termination bit_length
  by (relation "measure nat") auto

definition to_double :: "int \<Rightarrow> int" where
  "to_double x =
     (let q = 2 ^ (bit_length \<bar>x\<bar> - 53);
          significand = \<bar>x\<bar> div q;
          rest = \<bar>x\<bar> mod q;
          rounded = (if 2 * rest > q \<or> (2 * rest = q \<and> odd significand)
                     then significand + 1 else significand)
      in sgn x * (rounded * q))"

text \<open>
  The methods \<^verbatim>\<open>add\<close> and \<^verbatim>\<open>sub\<close> as the class has them. An \<^verbatim>\<open>Interval\<close> is an object: the
  store lists the objects, and a reference is an index into it. Both methods assign to the
  receiver, one field after the other, and return the receiver:
  \<^verbatim>\<open>this.min += other.min; this.max += other.max\<close> and
  \<^verbatim>\<open>this.min -= other.max; this.max -= other.min\<close>. The second assignment reads its
  operands after the first one has been made, which shows when the receiver and the
  argument are the same object.
\<close>

definition Interval_add :: "Interval list \<Rightarrow> nat \<Rightarrow> nat \<Rightarrow> Interval list" where
  "Interval_add store this other =
     (let store = store[this := (store ! this)
            \<lparr>min_itv := to_double (min_itv (store ! this) + min_itv (store ! other))\<rparr>];
          store = store[this := (store ! this)
            \<lparr>max_itv := to_double (max_itv (store ! this) + max_itv (store ! other))\<rparr>]
      in store)"

definition Interval_sub :: "Interval list \<Rightarrow> nat \<Rightarrow> nat \<Rightarrow> Interval list" where
  "Interval_sub store this other =
     (let store = store[this := (store ! this)
            \<lparr>min_itv := to_double (min_itv (store ! this) - max_itv (store ! other))\<rparr>];
          store = store[this := (store ! this)
            \<lparr>max_itv := to_double (max_itv (store ! this) - min_itv (store ! other))\<rparr>]
      in store)"

section \<open>The candidate filter\<close>

text \<open>
  What the code throws: a \<^verbatim>\<open>TypeError\<close> when it reads a property of \<^verbatim>\<open>undefined\<close>,
  \<^verbatim>\<open>new Error(msg)\<close> in the \<^verbatim>\<open>default\<close> branch of \<^verbatim>\<open>narrow_bingo_pool\<close>, and a
  \<^verbatim>\<open>RangeError\<close> when \<^verbatim>\<open>new Array(size)\<close> is given an invalid length or when the calls
  nest deeper than the call stack allows.
\<close>

datatype exn = TypeError | RangeError | Error string

text \<open>
  \<^verbatim>\<open>narrow_bingo_pool\<close> switches on the policy string. The \<^verbatim>\<open>strict\<close> branch first builds
  \<^verbatim>\<open>exclude_set\<close>: \<^verbatim>\<open>exclude_set.add(...types)\<close> passes all of \<^verbatim>\<open>types\<close> as arguments to
  \<^verbatim>\<open>Set.prototype.add\<close>, which adds its first argument only (\<^verbatim>\<open>undefined\<close>, here \<open>None\<close>,
  when \<^verbatim>\<open>types\<close> is empty). The set is bound and never read.
\<close>

definition narrow_bingo_pool ::
  "RawObjective list list \<Rightarrow> string \<Rightarrow> Interval \<Rightarrow> string list list \<Rightarrow> string set
     \<Rightarrow> exn + Objective list" where
  "narrow_bingo_pool bingo_data type_exclusivity tier_interval exclude_types exclude_names =
    (if type_exclusivity = ''none'' then
       Inr (filter (\<lambda>obj. contains tier_interval (int (tier obj)) \<and>
                          name obj \<notin> exclude_names)
              (bingo_pool bingo_data))
     else if type_exclusivity = ''partial'' then
       Inr (filter (\<lambda>obj. contains tier_interval (int (tier obj)) \<and>
                          name obj \<notin> exclude_names \<and>
                          list_all (\<lambda>v. \<not> includes_types obj v) exclude_types)
              (bingo_pool bingo_data))
     else if type_exclusivity = ''strict'' then
       (let exclude_set =
              fold (\<lambda>types s. insert (case types of [] \<Rightarrow> None | t # _ \<Rightarrow> Some t) s)
                exclude_types {}
        in Inr (filter (\<lambda>obj. contains tier_interval (int (tier obj)) \<and>
                              name obj \<notin> exclude_names \<and>
                              list_all (\<lambda>v. excludes_types obj v) exclude_types)
                  (bingo_pool bingo_data)))
     else Inl (Error (''Unhandled switch case: '' @ type_exclusivity)))"

section \<open>The constraint calculator\<close>

text \<open>
  A cell of the board is \<^verbatim>\<open>null\<close> (\<open>None\<close>) or an objective. \<^verbatim>\<open>board[r][c]\<close> outside the
  arrays is \<^verbatim>\<open>undefined\<close>: indexing \<^verbatim>\<open>undefined\<close> throws a \<^verbatim>\<open>TypeError\<close>, and so does the
  \<^verbatim>\<open>cell.tier\<close> that every read is followed by, since \<^verbatim>\<open>undefined === null\<close> is false.
\<close>

definition board_at :: "Objective option list list \<Rightarrow> nat \<Rightarrow> nat \<Rightarrow> exn + Objective option" where
  "board_at board r c =
     (if r < length board \<and> c < length (board ! r) then Inr (board ! r ! c) else Inl TypeError)"

text \<open>
  One \<^verbatim>\<open>for (let i = 0; i < size; i++)\<close> loop of \<^verbatim>\<open>count_bingo_constraints\<close>: the four
  loops differ in the cell they read at \<open>i\<close> and in the index they skip. The loop updates
  one element of \<^verbatim>\<open>bingo_tier_intervals\<close> and appends to \<^verbatim>\<open>bingo_types\<close>.
\<close>

fun along ::
  "(nat \<Rightarrow> exn + Objective option) \<Rightarrow> nat \<Rightarrow> Interval \<Rightarrow> nat list
     \<Rightarrow> Interval \<times> string list list \<Rightarrow> exn + Interval \<times> string list list" where
  "along cell_at skip objective_difficulty [] (itv, bingo_types) = Inr (itv, bingo_types)"
| "along cell_at skip objective_difficulty (i # rest) (itv, bingo_types) =
     (if i = skip then along cell_at skip objective_difficulty rest (itv, bingo_types)
      else
        case cell_at i of
          Inl e \<Rightarrow> Inl e
        | Inr cell \<Rightarrow>
            along cell_at skip objective_difficulty rest
              (sub itv (case cell of None \<Rightarrow> objective_difficulty
                                   | Some c \<Rightarrow> valueOf (int (tier c))),
               case cell of None \<Rightarrow> bingo_types | Some c \<Rightarrow> bingo_types @ [types c]))"

record GeneratorContext =
  board :: "Objective option list list"
  size_ctx :: nat
  objective_difficulty :: Interval
  bingo_difficulty :: Interval
  type_exclusivity :: string
  objective_names :: "string set"
  depth :: nat
  depth_record :: nat
  backtracks :: nat

record Constraints =
  tier_interval :: Interval
  exclude_types :: "string list list"

text \<open>
  \<^verbatim>\<open>row + col === size - 1\<close> is a comparison of JavaScript numbers, written over the
  integers (\<open>size - 1\<close> is \<open>-1\<close> for size \<open>0\<close>). The elements 2 and 3 of
  \<^verbatim>\<open>bingo_tier_intervals\<close> are \<^verbatim>\<open>null\<close> when the cell is off that diagonal.
\<close>

definition count_bingo_constraints :: "GeneratorContext \<Rightarrow> nat \<Rightarrow> nat \<Rightarrow> exn + Constraints" where
  "count_bingo_constraints context row col =
    (case along (\<lambda>i. board_at (board context) row i) col (objective_difficulty context)
            [0..<size_ctx context] (clone (bingo_difficulty context), []) of
       Inl e \<Rightarrow> Inl e
     | Inr (itv0, bingo_types) \<Rightarrow>
    (case along (\<lambda>i. board_at (board context) i col) row (objective_difficulty context)
            [0..<size_ctx context] (clone (bingo_difficulty context), bingo_types) of
       Inl e \<Rightarrow> Inl e
     | Inr (itv1, bingo_types) \<Rightarrow>
    (case (if row = col then
             (case along (\<lambda>i. board_at (board context) i i) row (objective_difficulty context)
                     [0..<size_ctx context] (clone (bingo_difficulty context), bingo_types) of
                Inl e \<Rightarrow> Inl e
              | Inr (itv2, bingo_types) \<Rightarrow> Inr (Some itv2, bingo_types))
           else Inr (None, bingo_types)) of
       Inl e \<Rightarrow> Inl e
     | Inr (itv2, bingo_types) \<Rightarrow>
    (case (if int row + int col = int (size_ctx context) - 1 then
             (case along (\<lambda>i. board_at (board context) i (size_ctx context - 1 - i)) row
                     (objective_difficulty context)
                     [0..<size_ctx context] (clone (bingo_difficulty context), bingo_types) of
                Inl e \<Rightarrow> Inl e
              | Inr (itv3, bingo_types) \<Rightarrow> Inr (Some itv3, bingo_types))
           else Inr (None, bingo_types)) of
       Inl e \<Rightarrow> Inl e
     | Inr (itv3, bingo_types) \<Rightarrow>
         Inr \<lparr>tier_interval =
                foldl (\<lambda>acc itv. intersection acc (the itv)) (objective_difficulty context)
                  (filter (\<lambda>v. v \<noteq> None) [Some itv0, Some itv1, itv2, itv3]),
              exclude_types = bingo_types\<rparr>))))"

section \<open>The backtracking engine\<close>

text \<open>
  \<^verbatim>\<open>Math.random()\<close> is the only source of randomness. \<open>rnd k\<close> stands for the value of
  \<^verbatim>\<open>Math.floor(Math.random() * (i + 1))\<close> at the \<open>k\<close>-th call, and the engine threads the
  number of calls made so far. The source reduces the value modulo \<open>i + 1\<close>, so every
  function \<open>rnd\<close> is a possible run.
\<close>

fun shuffle_from :: "(nat \<Rightarrow> nat) \<Rightarrow> nat \<Rightarrow> 'a list \<Rightarrow> nat \<Rightarrow> 'a list \<times> nat" where
  "shuffle_from rnd 0 array k = (array, k)"
| "shuffle_from rnd (Suc i) array k =
     (let j = rnd k mod (i + 1)
      in shuffle_from rnd i (array[i := array ! j, j := array ! i]) (Suc k))"

definition shuffle_array :: "(nat \<Rightarrow> nat) \<Rightarrow> 'a list \<Rightarrow> nat \<Rightarrow> 'a list \<times> nat" where
  "shuffle_array rnd array k = shuffle_from rnd (length array) array k"

definition BACKTRACK_LIMIT :: nat where
  "BACKTRACK_LIMIT = 100"

text \<open>
  \<^verbatim>\<open>generate_board_helper\<close> calls itself inside its \<^verbatim>\<open>for (const objective of pool)\<close> loop;
  the loop is the function \<open>for_objective\<close>, over the objectives still to try, with the
  \<open>row\<close> and \<open>col\<close> of the enclosing call. Its empty case is the code after the loop, which
  a \<^verbatim>\<open>break\<close> also reaches. The state is the context and the number of random draws.
  The argument after the catalog and the random source bounds the nesting of the
  calls: \<open>None\<close> means that the bound was reached, never a result of the source. The
  \<^verbatim>\<open>console.log\<close> lines are left out.
  The two assignments to \<^verbatim>\<open>board[row][col]\<close> are list updates: they are exact for a cell
  inside the board, where every call made by \<^verbatim>\<open>generate_board\<close> writes
  (\<open>writes_inside_board\<close> below). The loop runs with \<open>depth\<close> incremented, so
  \<^verbatim>\<open>context.depth--\<close> stays a natural number.
\<close>

fun generate_board_helper ::
  "RawObjective list list \<Rightarrow> (nat \<Rightarrow> nat) \<Rightarrow> nat \<Rightarrow> GeneratorContext \<times> nat
     \<Rightarrow> (exn + bool \<times> GeneratorContext \<times> nat) option"
and for_objective ::
  "RawObjective list list \<Rightarrow> (nat \<Rightarrow> nat) \<Rightarrow> nat \<Rightarrow> nat \<Rightarrow> nat \<Rightarrow> Objective list
     \<Rightarrow> GeneratorContext \<times> nat \<Rightarrow> (exn + bool \<times> GeneratorContext \<times> nat) option" where
  "generate_board_helper bingo_data rnd 0 (context, k) = None"
| "generate_board_helper bingo_data rnd (Suc fuel) (context, k) =
    (let context = (if depth context > depth_record context
                    then context\<lparr>depth_record := depth context\<rparr> else context)
     in
       if depth context \<ge> size_ctx context * size_ctx context then Some (Inr (True, context, k))
       else
         let row = depth context div size_ctx context;
             col = depth context mod size_ctx context
         in
           (case count_bingo_constraints context row col of
              Inl e \<Rightarrow> Some (Inl e)
            | Inr constraints \<Rightarrow>
           (case narrow_bingo_pool bingo_data (type_exclusivity context)
                   (tier_interval constraints) (exclude_types constraints)
                   (objective_names context) of
              Inl e \<Rightarrow> Some (Inl e)
            | Inr pool \<Rightarrow>
                if length pool = 0 then Some (Inr (False, context, k))
                else
                  (case shuffle_array rnd pool k of
                     (pool, k) \<Rightarrow>
                       for_objective bingo_data rnd fuel row col pool
                         (context\<lparr>depth := depth context + 1\<rparr>, k)))))"
| "for_objective bingo_data rnd fuel row col [] (context, k) =
     Some (Inr (False,
                context\<lparr>depth := depth context - 1,
                        board := (board context)[row := (board context ! row)[col := None]]\<rparr>,
                k))"
| "for_objective bingo_data rnd fuel row col (objective # rest) (context, k) =
    (let context = context\<lparr>board := (board context)[row := (board context ! row)
                                                          [col := Some objective]],
                           objective_names := insert (name objective) (objective_names context)\<rparr>
     in
       case generate_board_helper bingo_data rnd fuel (context, k) of
         None \<Rightarrow> None
       | Some (Inl e) \<Rightarrow> Some (Inl e)
       | Some (Inr (result, context, k)) \<Rightarrow>
           if result then Some (Inr (True, context, k))
           else
             let context = context\<lparr>backtracks := backtracks context + 1,
                                    objective_names := objective_names context - {name objective}\<rparr>
             in
               if depth context > 5 then
                 if backtracks context \<ge> BACKTRACK_LIMIT
                 then for_objective bingo_data rnd fuel row col [] (context, k)
                 else for_objective bingo_data rnd fuel row col rest (context, k)
               else for_objective bingo_data rnd fuel row col rest
                      (context\<lparr>backtracks := 0\<rparr>, k))"

text \<open>
  \<^verbatim>\<open>generate_board\<close> returns the board or an \<^verbatim>\<open>Error\<close> object (a value: it is not thrown).
  The nesting of \<^verbatim>\<open>generate_board_helper\<close> is bounded by \<open>size * size + 1\<close>, a bound that
  no run reaches (\<open>generate_board_returns\<close> below; by \<open>generate_board_helper_fuel\<close> a larger
  bound gives the same result).
\<close>

datatype board_or_Error =
  Board "Objective option list list"
| Error_value string

definition generate_board ::
  "RawObjective list list \<Rightarrow> (nat \<Rightarrow> nat) \<Rightarrow> nat \<Rightarrow> Interval option \<Rightarrow> Interval \<Rightarrow> string
     \<Rightarrow> (exn + board_or_Error) option" where
  "generate_board bingo_data rnd size' objective_difficulty' bingo_difficulty' type_exclusivity' =
    (let context = \<lparr>board = replicate size' (replicate size' None),
                    size_ctx = size',
                    objective_difficulty =
                      (case objective_difficulty' of None \<Rightarrow> safeIntegerRange
                                                  | Some itv \<Rightarrow> itv),
                    bingo_difficulty = bingo_difficulty',
                    type_exclusivity = type_exclusivity',
                    objective_names = {},
                    depth = 0,
                    depth_record = 0,
                    backtracks = 0\<rparr>
     in
       case generate_board_helper bingo_data rnd (size' * size' + 1) (context, 0) of
         None \<Rightarrow> None
       | Some (Inl e) \<Rightarrow> Some (Inl e)
       | Some (Inr (result, context, k)) \<Rightarrow>
           if \<not> result then
             Some (Inr (Error_value
               ''Board not found. A board may be possible but simply not found by the generator.''))
           else Some (Inr (Board (board context))))"

text \<open>
  \<^verbatim>\<open>generate_board\<close> above is the call as long as the JavaScript engine sets no limit. The
  engine does, in two places that the function reaches. \<^verbatim>\<open>new Array(size)\<close> throws a
  \<^verbatim>\<open>RangeError\<close> unless \<open>size\<close> is an array length, which is at most \<open>2^32 - 1\<close>. And a call
  nested deeper than the call stack holds throws a \<^verbatim>\<open>RangeError\<close>; \<open>stack\<close> is the number of
  nested calls of \<^verbatim>\<open>generate_board_helper\<close> that the stack holds, an amount that depends on
  the engine. Nothing in the source catches an exception.
\<close>

definition generate_board_within ::
  "nat \<Rightarrow> RawObjective list list \<Rightarrow> (nat \<Rightarrow> nat) \<Rightarrow> nat \<Rightarrow> Interval option \<Rightarrow> Interval
     \<Rightarrow> string \<Rightarrow> exn + board_or_Error" where
  "generate_board_within stack bingo_data rnd size' objective_difficulty' bingo_difficulty'
       type_exclusivity' =
    (if size' > 4294967295 then Inl RangeError
     else
       let context = \<lparr>board = replicate size' (replicate size' None),
                       size_ctx = size',
                       objective_difficulty =
                         (case objective_difficulty' of None \<Rightarrow> safeIntegerRange
                                                     | Some itv \<Rightarrow> itv),
                       bingo_difficulty = bingo_difficulty',
                       type_exclusivity = type_exclusivity',
                       objective_names = {},
                       depth = 0,
                       depth_record = 0,
                       backtracks = 0\<rparr>
       in
         case generate_board_helper bingo_data rnd stack (context, 0) of
           None \<Rightarrow> Inl RangeError
         | Some (Inl e) \<Rightarrow> Inl e
         | Some (Inr (result, context, k)) \<Rightarrow>
             if \<not> result then
               Inr (Error_value
                 ''Board not found. A board may be possible but simply not found by the generator.'')
             else Inr (Board (board context)))"

section \<open>Notions of the specification and of the proofs\<close>

text \<open>
  The tag condition of the three policies, in the words of the specification: none has no
  condition; partial rejects an item whose tag set is a superset of a forbidden tag-set;
  strict rejects an item that shares a tag with a forbidden tag-set.
\<close>

definition tag_policy_ok :: "string \<Rightarrow> string list list \<Rightarrow> Objective \<Rightarrow> bool" where
  "tag_policy_ok policy forbidden obj =
     (if policy = ''none'' then True
      else if policy = ''partial'' then list_all (\<lambda>T. \<not> set T \<subseteq> set (types obj)) forbidden
      else list_all (\<lambda>T. set T \<inter> set (types obj) = {}) forbidden)"

text \<open>
  The specification of the calculator, in its own words. A line is the list of its cells;
  \<open>contribution\<close> is what another cell of a line takes from the line's sum.
\<close>

definition contribution :: "Interval \<Rightarrow> Objective option \<Rightarrow> Interval" where
  "contribution od cell = (case cell of None \<Rightarrow> od | Some obj \<Rightarrow> valueOf (int (tier obj)))"

definition lines_through :: "nat \<Rightarrow> nat \<Rightarrow> nat \<Rightarrow> (nat \<times> nat) list list" where
  "lines_through n row col =
     [map (\<lambda>i. (row, i)) [0..<n], map (\<lambda>i. (i, col)) [0..<n]] @
     (if row = col then [map (\<lambda>i. (i, i)) [0..<n]] else []) @
     (if int row + int col = int n - 1 then [map (\<lambda>i. (i, n - 1 - i)) [0..<n]] else [])"

definition line_interval ::
  "Objective option list list \<Rightarrow> Interval \<Rightarrow> Interval \<Rightarrow> nat \<times> nat \<Rightarrow> (nat \<times> nat) list \<Rightarrow> Interval" where
  "line_interval b od bd target line =
     foldl sub bd (map (\<lambda>(r, c). contribution od (b ! r ! c)) (filter (\<lambda>p. p \<noteq> target) line))"

definition admissible_interval ::
  "Objective option list list \<Rightarrow> nat \<Rightarrow> Interval \<Rightarrow> Interval \<Rightarrow> nat \<Rightarrow> nat \<Rightarrow> Interval" where
  "admissible_interval b n od bd row col =
     foldl intersection od (map (line_interval b od bd (row, col)) (lines_through n row col))"

text \<open>
  A board of \<open>n\<close> rows of \<open>n\<close> cells; the cells that share a line with a target cell; the
  occupied ones among them, target excluded.
\<close>

definition square_board :: "Objective option list list \<Rightarrow> nat \<Rightarrow> bool" where
  "square_board b n \<longleftrightarrow> length b = n \<and> list_all (\<lambda>r. length r = n) b"



text \<open>The cells that the four loops visit, in the order of the visits.\<close>

definition other_cells :: "nat \<Rightarrow> nat \<Rightarrow> nat \<Rightarrow> (nat \<times> nat) list" where
  "other_cells n row col = concat (map (filter (\<lambda>p. p \<noteq> (row, col))) (lines_through n row col))"

text \<open>
  The assignments of \<^verbatim>\<open>generate_board_helper\<close>, named: \<open>enter\<close> is the update of
  \<open>depth_record\<close> on entry; \<open>place\<close> writes an objective into the cell and adds its name;
  \<open>dead_end\<close> counts a backtrack and deletes the name after a recursive call that failed;
  \<open>unplace\<close> is the two assignments after the loop.
\<close>

definition enter :: "GeneratorContext \<Rightarrow> GeneratorContext" where
  "enter context = (if depth context > depth_record context
                    then context\<lparr>depth_record := depth context\<rparr> else context)"

definition place :: "GeneratorContext \<Rightarrow> nat \<Rightarrow> nat \<Rightarrow> Objective \<Rightarrow> GeneratorContext" where
  "place context row col objective =
     context\<lparr>board := (board context)[row := (board context ! row)[col := Some objective]],
             objective_names := insert (name objective) (objective_names context)\<rparr>"

definition dead_end :: "GeneratorContext \<Rightarrow> Objective \<Rightarrow> GeneratorContext" where
  "dead_end context objective =
     context\<lparr>backtracks := backtracks context + 1,
             objective_names := objective_names context - {name objective}\<rparr>"

definition unplace :: "GeneratorContext \<Rightarrow> nat \<Rightarrow> nat \<Rightarrow> GeneratorContext" where
  "unplace context row col =
     context\<lparr>depth := depth context - 1,
             board := (board context)[row := (board context ! row)[col := None]]\<rparr>"

text \<open>The fields of the context that the engine never assigns.\<close>

definition same_parameters :: "GeneratorContext \<Rightarrow> GeneratorContext \<Rightarrow> bool" where
  "same_parameters c c' \<longleftrightarrow>
     size_ctx c' = size_ctx c \<and> objective_difficulty c' = objective_difficulty c \<and>
     bingo_difficulty c' = bingo_difficulty c \<and> type_exclusivity c' = type_exclusivity c"

text \<open>The objectives on a board (its non-null cells), in row-major order.\<close>

definition board_objectives :: "Objective option list list \<Rightarrow> Objective list" where
  "board_objectives b = List.map_filter (\<lambda>cell. cell) (concat b)"

text \<open>
  The tier sum of a line, a null cell counting 0; a line is complete when none of its
  cells is null. \<open>lines_ok\<close>: every complete line through a cell of the board has its sum
  within the interval.
\<close>

definition tier_at :: "Objective option list list \<Rightarrow> nat \<times> nat \<Rightarrow> int" where
  "tier_at b p = (case b ! fst p ! snd p of None \<Rightarrow> 0 | Some obj \<Rightarrow> int (tier obj))"

definition line_sum :: "Objective option list list \<Rightarrow> (nat \<times> nat) list \<Rightarrow> int" where
  "line_sum b line = sum_list (map (tier_at b) line)"

definition line_complete :: "Objective option list list \<Rightarrow> (nat \<times> nat) list \<Rightarrow> bool" where
  "line_complete b line = list_all (\<lambda>p. b ! fst p ! snd p \<noteq> None) line"

definition lines_ok :: "Objective option list list \<Rightarrow> nat \<Rightarrow> Interval \<Rightarrow> bool" where
  "lines_ok b n bd \<longleftrightarrow>
     (\<forall>r < n. \<forall>c < n. \<forall>line \<in> set (lines_through n r c).
        line_complete b line \<longrightarrow> contains bd (line_sum b line))"

text \<open>
  The invariant of the search. \<open>filled_to b n d\<close>: the board is \<open>n \<times> n\<close> and, in row-major
  order, exactly its first \<open>d\<close> cells are occupied. \<open>search_invariant\<close> adds that
  \<open>objective_names\<close> is the set of the names on the board, that these names are distinct,
  that every tier on the board lies within \<open>objective_difficulty\<close>, and that every complete
  line sums into \<open>bingo_difficulty\<close>.
\<close>

definition filled_to :: "Objective option list list \<Rightarrow> nat \<Rightarrow> nat \<Rightarrow> bool" where
  "filled_to b n d \<longleftrightarrow>
     square_board b n \<and> d \<le> n * n \<and> (\<forall>i < n * n. (concat b ! i \<noteq> None) = (i < d))"

definition search_invariant :: "GeneratorContext \<Rightarrow> bool" where
  "search_invariant c \<longleftrightarrow>
     filled_to (board c) (size_ctx c) (depth c) \<and>
     objective_names c = set (map name (board_objectives (board c))) \<and>
     distinct (map name (board_objectives (board c))) \<and>
     list_all (\<lambda>obj. contains (objective_difficulty c) (int (tier obj)))
       (board_objectives (board c)) \<and>
     lines_ok (board c) (size_ctx c) (bingo_difficulty c)"

text \<open>
  \<open>admissible c0 obj\<close>: the filter may return \<open>obj\<close> for the next cell of \<open>c0\<close>.
  \<open>trying c0 c\<close>: \<open>c\<close> is a state of the candidate loop for the next cell of \<open>c0\<close>: the depth
  is incremented, and the cell may hold the candidate that failed last.
\<close>

definition admissible :: "GeneratorContext \<Rightarrow> Objective \<Rightarrow> bool" where
  "admissible c0 obj \<longleftrightarrow>
     name obj \<notin> objective_names c0 \<and>
     contains (admissible_interval (board c0) (size_ctx c0) (objective_difficulty c0)
                 (bingo_difficulty c0) (depth c0 div size_ctx c0) (depth c0 mod size_ctx c0))
       (int (tier obj))"

definition trying :: "GeneratorContext \<Rightarrow> GeneratorContext \<Rightarrow> bool" where
  "trying c0 c \<longleftrightarrow>
     (board c)[depth c0 div size_ctx c0 :=
        (board c ! (depth c0 div size_ctx c0))[depth c0 mod size_ctx c0 := None]] = board c0 \<and>
     depth c = Suc (depth c0) \<and> objective_names c = objective_names c0 \<and> same_parameters c0 c"

text \<open>The three values of \<^verbatim>\<open>TypeExclusivity\<close>.\<close>

definition known_policy :: "string \<Rightarrow> bool" where
  "known_policy policy \<longleftrightarrow> policy = ''none'' \<or> policy = ''partial'' \<or> policy = ''strict''"

text \<open>The context that \<^verbatim>\<open>generate_board\<close> creates.\<close>

definition initial_context :: "nat \<Rightarrow> Interval option \<Rightarrow> Interval \<Rightarrow> string \<Rightarrow> GeneratorContext" where
  "initial_context n od bd policy =
     \<lparr>board = replicate n (replicate n None),
      size_ctx = n,
      objective_difficulty = (case od of None \<Rightarrow> safeIntegerRange | Some itv \<Rightarrow> itv),
      bingo_difficulty = bd,
      type_exclusivity = policy,
      objective_names = {},
      depth = 0,
      depth_record = 0,
      backtracks = 0\<rparr>"

text \<open>
  The calls of \<^verbatim>\<open>generate_board_helper\<close> made during a call of it, in the order in which
  they are entered, each with its arguments: the call itself, then the calls made by its
  loop. The function follows the equations \<open>helper_Suc\<close> and \<open>for_objective_Cons\<close> below
  and reads the outcome of each recursive call from \<open>generate_board_helper\<close> itself.
\<close>

fun helper_calls ::
  "RawObjective list list \<Rightarrow> (nat \<Rightarrow> nat) \<Rightarrow> nat \<Rightarrow> GeneratorContext \<times> nat
     \<Rightarrow> (nat \<times> GeneratorContext \<times> nat) list"
and for_objective_calls ::
  "RawObjective list list \<Rightarrow> (nat \<Rightarrow> nat) \<Rightarrow> nat \<Rightarrow> nat \<Rightarrow> nat \<Rightarrow> Objective list
     \<Rightarrow> GeneratorContext \<times> nat \<Rightarrow> (nat \<times> GeneratorContext \<times> nat) list" where
  "helper_calls bingo_data rnd 0 (context, k) = [(0, context, k)]"
| "helper_calls bingo_data rnd (Suc fuel) (context, k) =
     (Suc fuel, context, k) #
     (if depth context \<ge> size_ctx context * size_ctx context then []
      else
        (case count_bingo_constraints (enter context) (depth context div size_ctx context)
                (depth context mod size_ctx context) of
           Inl e \<Rightarrow> []
         | Inr constraints \<Rightarrow>
        (case narrow_bingo_pool bingo_data (type_exclusivity context)
                (tier_interval constraints) (exclude_types constraints)
                (objective_names context) of
           Inl e \<Rightarrow> []
         | Inr pool \<Rightarrow>
             if pool = [] then []
             else for_objective_calls bingo_data rnd fuel (depth context div size_ctx context)
                    (depth context mod size_ctx context) (fst (shuffle_array rnd pool k))
                    ((enter context)\<lparr>depth := depth context + 1\<rparr>,
                     snd (shuffle_array rnd pool k)))))"
| "for_objective_calls bingo_data rnd fuel row col [] (context, k) = []"
| "for_objective_calls bingo_data rnd fuel row col (objective # rest) (context, k) =
     helper_calls bingo_data rnd fuel (place context row col objective, k) @
     (case generate_board_helper bingo_data rnd fuel (place context row col objective, k) of
        Some (Inr (False, context', k')) \<Rightarrow>
          if depth context' > 5 then
            if backtracks (dead_end context' objective) \<ge> BACKTRACK_LIMIT then []
            else for_objective_calls bingo_data rnd fuel row col rest
                   (dead_end context' objective, k')
          else for_objective_calls bingo_data rnd fuel row col rest
                 ((dead_end context' objective)\<lparr>backtracks := 0\<rparr>, k')
      | _ \<Rightarrow> [])"

definition generate_board_calls ::
  "RawObjective list list \<Rightarrow> (nat \<Rightarrow> nat) \<Rightarrow> nat \<Rightarrow> Interval option \<Rightarrow> Interval \<Rightarrow> string
     \<Rightarrow> (nat \<times> GeneratorContext \<times> nat) list" where
  "generate_board_calls bingo_data rnd n od bd policy =
     helper_calls bingo_data rnd (n * n + 1) (initial_context n od bd policy, 0)"

text \<open>
  \<^verbatim>\<open>generate_board_helper\<close> with a log: the same two functions, equation for equation, that
  also return the list of the calls of \<^verbatim>\<open>generate_board_helper\<close> entered during the run, in
  the order in which they are entered, each with the arguments it is entered with.
  \<open>traced_outcome\<close> below shows that the outcome is that of \<open>generate_board_helper\<close>.
\<close>

fun generate_board_helper_traced ::
  "RawObjective list list \<Rightarrow> (nat \<Rightarrow> nat) \<Rightarrow> nat \<Rightarrow> GeneratorContext \<times> nat
     \<Rightarrow> (exn + bool \<times> GeneratorContext \<times> nat) option \<times> (nat \<times> GeneratorContext \<times> nat) list"
and for_objective_traced ::
  "RawObjective list list \<Rightarrow> (nat \<Rightarrow> nat) \<Rightarrow> nat \<Rightarrow> nat \<Rightarrow> nat \<Rightarrow> Objective list
     \<Rightarrow> GeneratorContext \<times> nat
     \<Rightarrow> (exn + bool \<times> GeneratorContext \<times> nat) option \<times> (nat \<times> GeneratorContext \<times> nat) list"
where
  "generate_board_helper_traced bingo_data rnd 0 (context, k) = (None, [(0, context, k)])"
| "generate_board_helper_traced bingo_data rnd (Suc fuel) (context, k) =
    (let entered = (Suc fuel, context, k);
         context = (if depth context > depth_record context
                    then context\<lparr>depth_record := depth context\<rparr> else context)
     in
       if depth context \<ge> size_ctx context * size_ctx context
       then (Some (Inr (True, context, k)), [entered])
       else
         let row = depth context div size_ctx context;
             col = depth context mod size_ctx context
         in
           (case count_bingo_constraints context row col of
              Inl e \<Rightarrow> (Some (Inl e), [entered])
            | Inr constraints \<Rightarrow>
           (case narrow_bingo_pool bingo_data (type_exclusivity context)
                   (tier_interval constraints) (exclude_types constraints)
                   (objective_names context) of
              Inl e \<Rightarrow> (Some (Inl e), [entered])
            | Inr pool \<Rightarrow>
                if length pool = 0 then (Some (Inr (False, context, k)), [entered])
                else
                  (case shuffle_array rnd pool k of
                     (pool, k) \<Rightarrow>
                       (case for_objective_traced bingo_data rnd fuel row col pool
                               (context\<lparr>depth := depth context + 1\<rparr>, k) of
                          (outcome, calls) \<Rightarrow> (outcome, entered # calls))))))"
| "for_objective_traced bingo_data rnd fuel row col [] (context, k) =
     (Some (Inr (False,
                 context\<lparr>depth := depth context - 1,
                         board := (board context)[row := (board context ! row)[col := None]]\<rparr>,
                 k)), [])"
| "for_objective_traced bingo_data rnd fuel row col (objective # rest) (context, k) =
    (let context = context\<lparr>board := (board context)[row := (board context ! row)
                                                          [col := Some objective]],
                           objective_names := insert (name objective) (objective_names context)\<rparr>
     in
       case generate_board_helper_traced bingo_data rnd fuel (context, k) of
         (None, calls) \<Rightarrow> (None, calls)
       | (Some (Inl e), calls) \<Rightarrow> (Some (Inl e), calls)
       | (Some (Inr (result, context, k)), calls) \<Rightarrow>
           if result then (Some (Inr (True, context, k)), calls)
           else
             let context = context\<lparr>backtracks := backtracks context + 1,
                                    objective_names := objective_names context - {name objective}\<rparr>
             in
               (case (if depth context > 5 then
                        if backtracks context \<ge> BACKTRACK_LIMIT
                        then for_objective_traced bingo_data rnd fuel row col [] (context, k)
                        else for_objective_traced bingo_data rnd fuel row col rest (context, k)
                      else for_objective_traced bingo_data rnd fuel row col rest
                             (context\<lparr>backtracks := 0\<rparr>, k)) of
                  (outcome, later) \<Rightarrow> (outcome, calls @ later)))"

text \<open>
  The candidate loop without the backtrack limit: every dead end resets \<open>backtracks\<close> and
  goes on to the next candidate.
\<close>

fun for_objective_unlimited ::
  "RawObjective list list \<Rightarrow> (nat \<Rightarrow> nat) \<Rightarrow> nat \<Rightarrow> nat \<Rightarrow> nat \<Rightarrow> Objective list
     \<Rightarrow> GeneratorContext \<times> nat \<Rightarrow> (exn + bool \<times> GeneratorContext \<times> nat) option" where
  "for_objective_unlimited bingo_data rnd fuel row col [] (context, k) =
     Some (Inr (False, unplace context row col, k))"
| "for_objective_unlimited bingo_data rnd fuel row col (objective # rest) (context, k) =
     (case generate_board_helper bingo_data rnd fuel (place context row col objective, k) of
        None \<Rightarrow> None
      | Some (Inl e) \<Rightarrow> Some (Inl e)
      | Some (Inr (result, context', k')) \<Rightarrow>
          if result then Some (Inr (True, context', k'))
          else for_objective_unlimited bingo_data rnd fuel row col rest
                 ((dead_end context' objective)\<lparr>backtracks := 0\<rparr>, k'))"

section \<open>Concrete inputs\<close>

text \<open>Two \<^verbatim>\<open>Interval\<close> objects: \<open>[10, 14]\<close> at reference 0 and \<open>[1, 3]\<close> at reference 1.\<close>

definition two_intervals :: "Interval list" where
  "two_intervals = [\<lparr>min_itv = 10, max_itv = 14\<rparr>, \<lparr>min_itv = 1, max_itv = 3\<rparr>]"


definition example_board :: "Objective option list list" where
  "example_board =
     [[Some \<lparr>name = ''B'', types = [''a'', ''b''], tier = 1\<rparr>,
       Some \<lparr>name = ''C'', types = [''c''], tier = 1\<rparr>],
      [Some \<lparr>name = ''E'', types = [''d'', ''e''], tier = 2\<rparr>,
       Some \<lparr>name = ''F'', types = [''d''], tier = 2\<rparr>]]"

definition two_items :: "RawObjective list list" where
  "two_items = [[], [\<lparr>name = ''A'', types = [''a'']\<rparr>], [\<lparr>name = ''B'', types = [''b'']\<rparr>]]"

definition backtracking_call :: "nat \<times> GeneratorContext \<times> nat" where
  "backtracking_call =
     (4, \<lparr>board = [[Some \<lparr>name = ''B'', types = [''b''], tier = 2\<rparr>, None], [None, None]],
           size_ctx = 2,
           objective_difficulty = safeIntegerRange,
           bingo_difficulty = \<lparr>min_itv = 3, max_itv = 3\<rparr>,
           type_exclusivity = ''none'', objective_names = {''B''}, depth = 1,
           depth_record = 0, backtracks = 0\<rparr>, 2)"

definition unreachable_context :: GeneratorContext where
  "unreachable_context =
     initial_context 1 (Some \<lparr>min_itv = 1, max_itv = 3\<rparr>) \<lparr>min_itv = 100, max_itv = 200\<rparr> ''none''"

definition limit_context :: GeneratorContext where
  "limit_context =
     \<lparr>board =
        [[Some \<lparr>name = ''A'', types = [''a''], tier = 1\<rparr>,
          Some \<lparr>name = ''W'', types = [''w''], tier = 7\<rparr>,
          Some \<lparr>name = ''B'', types = [''a'', ''b''], tier = 1\<rparr>],
         [Some \<lparr>name = ''D'', types = [''c'', ''d''], tier = 2\<rparr>,
          Some \<lparr>name = ''E'', types = [''d'', ''e''], tier = 2\<rparr>,
          Some \<lparr>name = ''O'', types = [''o''], tier = 5\<rparr>],
         [None, None, None]],
      size_ctx = 3,
      objective_difficulty = safeIntegerRange,
      bingo_difficulty = \<lparr>min_itv = 9, max_itv = 9\<rparr>,
      type_exclusivity = ''none'',
      objective_names = {''A'', ''W'', ''B'', ''D'', ''E'', ''O''},
      depth = 7, depth_record = 7, backtracks = 99\<rparr>"

definition objective_S :: Objective where
  "objective_S = \<lparr>name = ''S'', types = [''s''], tier = 6\<rparr>"

definition objective_T :: Objective where
  "objective_T = \<lparr>name = ''T'', types = [''t''], tier = 6\<rparr>"

definition first_cell_context :: GeneratorContext where
  "first_cell_context =
     \<lparr>board = [[None, None], [None, None]],
      size_ctx = 2,
      objective_difficulty = safeIntegerRange,
      bingo_difficulty = \<lparr>min_itv = 3, max_itv = 3\<rparr>,
      type_exclusivity = ''none'',
      objective_names = {},
      depth = 1, depth_record = 0, backtracks = 0\<rparr>"

text \<open>A random source whose every draw is 0.\<close>

definition zero_source :: "nat \<Rightarrow> nat" where
  "zero_source k = 0"

declare bit_length.simps [simp del]

section \<open>Properties of intervals\<close>

lemma bit_length_le: "m < 2 ^ k \<Longrightarrow> bit_length m \<le> k"
proof (induction k arbitrary: m)
  case 0
  then show ?case by (simp add: bit_length.simps)
next
  case (Suc k)
  show ?case
  proof (cases "m \<le> 0")
    case True
    then show ?thesis by (simp add: bit_length.simps)
  next
    case False
    from Suc.prems have "m div 2 < 2 ^ k" by simp
    then have "bit_length (m div 2) \<le> k" by (rule Suc.IH)
    with False show ?thesis by (subst bit_length.simps) simp
  qed
qed

text \<open>An integer within the safe-integer range is a double, and rounding leaves it alone.\<close>

lemma to_double_exact:
  assumes "\<bar>x\<bar> \<le> MAX_SAFE_INTEGER"
  shows "to_double x = x"
proof -
  from assms have "\<bar>x\<bar> < 2 ^ 53" by (simp add: MAX_SAFE_INTEGER_def)
  then have "bit_length \<bar>x\<bar> \<le> 53" by (rule bit_length_le)
  then have "bit_length \<bar>x\<bar> - 53 = 0" by simp
  then show ?thesis
    by (simp add: to_double_def Let_def sgn_if)
qed

lemma intersection_empty_iff:
  "min_itv (intersection \<lparr>min_itv = a, max_itv = b\<rparr> \<lparr>min_itv = c, max_itv = d\<rparr>)
      > max_itv (intersection \<lparr>min_itv = a, max_itv = b\<rparr> \<lparr>min_itv = c, max_itv = d\<rparr>)
    \<longleftrightarrow> \<not> (\<exists>v. contains \<lparr>min_itv = a, max_itv = b\<rparr> v \<and>
                   contains \<lparr>min_itv = c, max_itv = d\<rparr> v)"
proof -
  have overlap: "(\<exists>v. (a \<le> v \<and> v \<le> b) \<and> c \<le> v \<and> v \<le> d) \<longleftrightarrow> max a c \<le> min b d"
  proof
    assume "\<exists>v. (a \<le> v \<and> v \<le> b) \<and> c \<le> v \<and> v \<le> d"
    then show "max a c \<le> min b d" by auto
  next
    assume "max a c \<le> min b d"
    then have "(a \<le> max a c \<and> max a c \<le> b) \<and> c \<le> max a c \<and> max a c \<le> d" by auto
    then show "\<exists>v. (a \<le> v \<and> v \<le> b) \<and> c \<le> v \<and> v \<le> d" ..
  qed
  show ?thesis
    unfolding intersection_def contains_def
    using overlap by (simp add: not_le [symmetric])
qed

lemma Interval_add_exact:
  assumes "this < length store"
    and "store ! this = \<lparr>min_itv = a, max_itv = b\<rparr>"
    and "store ! other = \<lparr>min_itv = c, max_itv = d\<rparr>"
    and "\<bar>a + c\<bar> \<le> MAX_SAFE_INTEGER" and "\<bar>b + d\<bar> \<le> MAX_SAFE_INTEGER"
  shows "Interval_add store this other ! this = \<lparr>min_itv = a + c, max_itv = b + d\<rparr>"
proof (cases "this = other")
  case True
  with assms(2,3) have "c = a" "d = b" by simp_all
  with assms True show ?thesis
    by (simp add: Interval_add_def Let_def to_double_exact)
next
  case False
  with assms show ?thesis
    by (simp add: Interval_add_def Let_def to_double_exact)
qed

text \<open>
  \<open>sub\<close>, which the constraint calculator is modelled with, is the method on a receiver
  other than the argument, as long as the differences are safe integers.
\<close>

lemma sub_Interval_sub:
  assumes "this < length store" and "this \<noteq> other"
    and "\<bar>min_itv (store ! this) - max_itv (store ! other)\<bar> \<le> MAX_SAFE_INTEGER"
    and "\<bar>max_itv (store ! this) - min_itv (store ! other)\<bar> \<le> MAX_SAFE_INTEGER"
  shows "Interval_sub store this other ! this = sub (store ! this) (store ! other)"
  using assms by (simp add: Interval_sub_def sub_def Let_def to_double_exact)

lemma Interval_sub_exact:
  assumes "this < length store" and "this \<noteq> other"
    and "store ! this = \<lparr>min_itv = a, max_itv = b\<rparr>"
    and "store ! other = \<lparr>min_itv = c, max_itv = d\<rparr>"
    and "\<bar>a - d\<bar> \<le> MAX_SAFE_INTEGER" and "\<bar>b - c\<bar> \<le> MAX_SAFE_INTEGER"
  shows "Interval_sub store this other ! this = \<lparr>min_itv = a - d, max_itv = b - c\<rparr>"
  using assms sub_Interval_sub [of this store other] by (simp add: sub_def)

text \<open>
  C8, as the specification states it, does not hold of the code: for all intervals
  \<open>[a, b]\<close> and \<open>[c, d]\<close>, subtracting is to yield exactly \<open>[a - d, b - c]\<close> and adding exactly
  \<open>[a + c, b + d]\<close>. Subtracting the interval \<open>[1, 3]\<close> from itself (\<^verbatim>\<open>a.sub(a)\<close>) leaves
  \<open>[-2, 5]\<close> and not \<open>[1 - 3, 3 - 1]\<close>: the upper bound is computed from the lower bound just
  assigned. Adding \<open>[1, 1]\<close> to \<open>[2^53, 2^53]\<close> leaves \<open>[2^53, 2^53]\<close> and not
  \<open>[2^53 + 1, 2^53 + 1]\<close>: the sum is rounded to the nearest double.
\<close>

theorem interval_arithmetic_counterexample:
  "Interval_sub [\<lparr>min_itv = 1, max_itv = 3\<rparr>] 0 0 ! 0 = \<lparr>min_itv = - 2, max_itv = 5\<rparr> \<and>
   Interval_sub [\<lparr>min_itv = 1, max_itv = 3\<rparr>] 0 0 ! 0 \<noteq> \<lparr>min_itv = 1 - 3, max_itv = 3 - 1\<rparr> \<and>
   Interval_add [\<lparr>min_itv = 9007199254740992, max_itv = 9007199254740992\<rparr>,
                 \<lparr>min_itv = 1, max_itv = 1\<rparr>] 0 1 ! 0
     = \<lparr>min_itv = 9007199254740992, max_itv = 9007199254740992\<rparr> \<and>
   Interval_add [\<lparr>min_itv = 9007199254740992, max_itv = 9007199254740992\<rparr>,
                 \<lparr>min_itv = 1, max_itv = 1\<rparr>] 0 1 ! 0
     \<noteq> \<lparr>min_itv = 9007199254740992 + 1, max_itv = 9007199254740992 + 1\<rparr>"
  by code_simp

text \<open>
  C8, amended. For two \<^verbatim>\<open>Interval\<close> objects \<open>[a, b]\<close> (the receiver) and \<open>[c, d]\<close> (the
  argument) with integer bounds: when the sums \<open>a + c\<close> and \<open>b + d\<close> are safe integers,
  \<^verbatim>\<open>add\<close> leaves exactly \<open>[a + c, b + d]\<close> in the receiver; when the receiver and the argument
  are two distinct objects and the differences \<open>a - d\<close> and \<open>b - c\<close> are safe integers, \<^verbatim>\<open>sub\<close>
  leaves exactly \<open>[a - d, b - c]\<close> in the receiver; \<^verbatim>\<open>intersection\<close> yields
  \<open>[max a c, min b d]\<close>, and that interval is empty (its lower bound exceeds its upper
  bound) exactly when no value lies in both intervals.
\<close>

theorem interval_arithmetic_safe:
  assumes "this < length store" and "other < length store"
    and "store ! this = \<lparr>min_itv = a, max_itv = b\<rparr>"
    and "store ! other = \<lparr>min_itv = c, max_itv = d\<rparr>"
  shows
    "(\<bar>a + c\<bar> \<le> MAX_SAFE_INTEGER \<and> \<bar>b + d\<bar> \<le> MAX_SAFE_INTEGER \<longrightarrow>
        Interval_add store this other ! this = \<lparr>min_itv = a + c, max_itv = b + d\<rparr>) \<and>
     (this \<noteq> other \<and> \<bar>a - d\<bar> \<le> MAX_SAFE_INTEGER \<and> \<bar>b - c\<bar> \<le> MAX_SAFE_INTEGER \<longrightarrow>
        Interval_sub store this other ! this = \<lparr>min_itv = a - d, max_itv = b - c\<rparr>) \<and>
     intersection (store ! this) (store ! other) = \<lparr>min_itv = max a c, max_itv = min b d\<rparr> \<and>
     (min_itv (intersection (store ! this) (store ! other))
        > max_itv (intersection (store ! this) (store ! other))
      \<longleftrightarrow> \<not> (\<exists>v. contains (store ! this) v \<and> contains (store ! other) v))"
proof (intro conjI impI)
  assume "\<bar>a + c\<bar> \<le> MAX_SAFE_INTEGER \<and> \<bar>b + d\<bar> \<le> MAX_SAFE_INTEGER"
  with assms show "Interval_add store this other ! this = \<lparr>min_itv = a + c, max_itv = b + d\<rparr>"
    by (simp add: Interval_add_exact)
next
  assume "this \<noteq> other \<and> \<bar>a - d\<bar> \<le> MAX_SAFE_INTEGER \<and> \<bar>b - c\<bar> \<le> MAX_SAFE_INTEGER"
  with assms show "Interval_sub store this other ! this = \<lparr>min_itv = a - d, max_itv = b - c\<rparr>"
    by (simp add: Interval_sub_exact)
next
  from assms show "intersection (store ! this) (store ! other)
      = \<lparr>min_itv = max a c, max_itv = min b d\<rparr>"
    by (simp add: intersection_def)
next
  from assms intersection_empty_iff [of a b c d]
  show "min_itv (intersection (store ! this) (store ! other))
        > max_itv (intersection (store ! this) (store ! other))
      \<longleftrightarrow> \<not> (\<exists>v. contains (store ! this) v \<and> contains (store ! other) v)"
    by simp
qed

text \<open>
  The amended C8 on the two objects \<open>[10, 14]\<close> and \<open>[1, 3]\<close>.
\<close>

lemma two_intervals_safe:
  "\<bar>10 + 1 :: int\<bar> \<le> MAX_SAFE_INTEGER \<and> \<bar>14 + 3 :: int\<bar> \<le> MAX_SAFE_INTEGER \<and>
   \<bar>10 - 3 :: int\<bar> \<le> MAX_SAFE_INTEGER \<and> \<bar>14 - 1 :: int\<bar> \<le> MAX_SAFE_INTEGER"
  by (simp add: MAX_SAFE_INTEGER_def)

theorem interval_arithmetic_safe_witness:
  "Interval_add two_intervals 0 1 ! 0 = \<lparr>min_itv = 10 + 1, max_itv = 14 + 3\<rparr> \<and>
   Interval_sub two_intervals 0 1 ! 0 = \<lparr>min_itv = 10 - 3, max_itv = 14 - 1\<rparr> \<and>
   intersection (two_intervals ! 0) (two_intervals ! 1)
     = \<lparr>min_itv = max 10 1, max_itv = min 14 3\<rparr> \<and>
   (min_itv (intersection (two_intervals ! 0) (two_intervals ! 1))
      > max_itv (intersection (two_intervals ! 0) (two_intervals ! 1))
    \<longleftrightarrow> \<not> (\<exists>v. contains (two_intervals ! 0) v \<and> contains (two_intervals ! 1) v))"
proof -
  have len: "0 < length two_intervals" "1 < length two_intervals"
    and at: "two_intervals ! 0 = \<lparr>min_itv = 10, max_itv = 14\<rparr>"
      "two_intervals ! 1 = \<lparr>min_itv = 1, max_itv = 3\<rparr>"
    by (simp_all add: two_intervals_def)
  have distinct: "(0::nat) \<noteq> 1" by simp
  note t = interval_arithmetic_safe [OF len at]
  from t two_intervals_safe distinct show ?thesis by blast
qed

section \<open>Properties of the candidate filter\<close>

lemma includes_types_subset: "includes_types obj ts \<longleftrightarrow> set ts \<subseteq> set (types obj)"
  by (auto simp: includes_types_def types_set_def list_all_iff)

lemma excludes_types_disjoint: "excludes_types obj ts \<longleftrightarrow> set ts \<inter> set (types obj) = {}"
  by (auto simp: excludes_types_def types_set_def list_all_iff)

text \<open>
  C3. For a policy among none, partial and strict, \<^verbatim>\<open>narrow_bingo_pool\<close> returns exactly
  the catalog items (in catalog order) whose tier the interval contains, whose name is not
  used, and which satisfy the policy's tag condition; the exclusion set built in the strict
  branch does not appear in the result.
\<close>

theorem narrow_bingo_pool_exact:
  assumes "policy = ''none'' \<or> policy = ''partial'' \<or> policy = ''strict''"
  shows "narrow_bingo_pool bingo_data policy itv forbidden used =
           Inr (filter (\<lambda>obj. contains itv (int (tier obj)) \<and>
                              name obj \<notin> used \<and>
                              tag_policy_ok policy forbidden obj)
                  (bingo_pool bingo_data))"
proof -
  have strict: "excludes_types obj = (\<lambda>T. set T \<inter> set (types obj) = {})" for obj
    by (rule ext) (rule excludes_types_disjoint)
  show ?thesis
    using assms
    by (auto simp: narrow_bingo_pool_def tag_policy_ok_def includes_types_subset strict Let_def)
qed

theorem narrow_bingo_pool_exact_witness:
  "(''strict'' = ''none'' \<or> ''strict'' = ''partial'' \<or> ''strict'' = ''strict'') \<and>
   narrow_bingo_pool data ''strict'' \<lparr>min_itv = 1, max_itv = 2\<rparr> [[''a'']] {''D''} =
     Inr [\<lparr>name = ''C'', types = [''c''], tier = 1\<rparr>,
          \<lparr>name = ''E'', types = [''d'', ''e''], tier = 2\<rparr>,
          \<lparr>name = ''F'', types = [''d''], tier = 2\<rparr>]"
  using narrow_bingo_pool_exact [of "''strict''" data "\<lparr>min_itv = 1, max_itv = 2\<rparr>"
      "[[''a'']]" "{''D''}"]
  by (simp add: tag_policy_ok_def bingo_pool_def data_def contains_def enumerate_eq_zip
      upt_conv_Cons)

section \<open>The constraint calculator meets its specification\<close>

lemma along_pure:
  assumes "\<forall>i \<in> set xs. i \<noteq> skip \<longrightarrow> cell_at i = Inr (g i)"
  shows "along cell_at skip od xs (itv, tys) =
           Inr (foldl sub itv (map (\<lambda>i. contribution od (g i)) (filter (\<lambda>i. i \<noteq> skip) xs)),
                tys @ map (\<lambda>i. types (the (g i))) (filter (\<lambda>i. i \<noteq> skip \<and> g i \<noteq> None) xs))"
  using assms
proof (induction xs arbitrary: itv tys)
  case Nil
  then show ?case by simp
next
  case (Cons i xs)
  show ?case
  proof (cases "i = skip")
    case True
    with Cons show ?thesis by simp
  next
    case False
    with Cons.prems have c: "cell_at i = Inr (g i)" by simp
    from Cons.prems have rest: "\<forall>i \<in> set xs. i \<noteq> skip \<longrightarrow> cell_at i = Inr (g i)" by simp
    show ?thesis
      using False c Cons.IH [OF rest]
      by (cases "g i") (simp_all add: contribution_def)
  qed
qed

lemma square_board_at:
  "square_board b n \<Longrightarrow> r < n \<Longrightarrow> c < n \<Longrightarrow> board_at b r c = Inr (b ! r ! c)"
  by (simp add: square_board_def board_at_def list_all_length)

lemma along_line:
  assumes "\<forall>i \<in> set xs. i \<noteq> skip \<longrightarrow> cell_at i = Inr (b ! fst (pos i) ! snd (pos i))"
    and "\<forall>i \<in> set xs. (pos i \<noteq> target) = (i \<noteq> skip)"
  shows "along cell_at skip od xs (itv, tys) =
           Inr (foldl sub itv (map (\<lambda>(r, c). contribution od (b ! r ! c))
                                 (filter (\<lambda>p. p \<noteq> target) (map pos xs))),
                tys @ map (\<lambda>(r, c). types (the (b ! r ! c)))
                        (filter (\<lambda>(r, c). b ! r ! c \<noteq> None)
                           (filter (\<lambda>p. p \<noteq> target) (map pos xs))))"
proof -
  have f: "filter (\<lambda>p. p \<noteq> target) (map pos xs) = map pos (filter (\<lambda>i. i \<noteq> skip) xs)"
    using assms(2) by (induction xs) auto
  show ?thesis
    unfolding f along_pure [where g = "\<lambda>i. b ! fst (pos i) ! snd (pos i)", OF assms(1)]
    by (simp add: filter_map comp_def case_prod_beta)
qed

lemma clone_id: "clone itv = itv"
  by (simp add: clone_def)

lemma count_bingo_constraints_explicit:
  assumes sq: "square_board (board context) (size_ctx context)"
    and row: "row < size_ctx context" and col: "col < size_ctx context"
  shows "count_bingo_constraints context row col =
           Inr \<lparr>tier_interval =
                  admissible_interval (board context) (size_ctx context)
                    (objective_difficulty context) (bingo_difficulty context) row col,
                exclude_types =
                  map (\<lambda>(r, c). types (the (board context ! r ! c)))
                    (filter (\<lambda>(r, c). board context ! r ! c \<noteq> None)
                       (other_cells (size_ctx context) row col))\<rparr>"
proof -
  define b where "b = board context"
  define n where "n = size_ctx context"
  define od where "od = objective_difficulty context"
  define S where "S = (\<lambda>itv line. foldl sub itv (map (\<lambda>(r, c). contribution od (b ! r ! c))
                                 (filter (\<lambda>p. p \<noteq> (row, col)) line)))"
  define T where "T = (\<lambda>line. map (\<lambda>(r, c). types (the (b ! r ! c)))
                        (filter (\<lambda>(r, c). b ! r ! c \<noteq> None)
                           (filter (\<lambda>p. p \<noteq> (row, col)) line)))"
  note defs = b_def [symmetric] n_def [symmetric] od_def [symmetric]
  have sq': "square_board b n" and row': "row < n" and col': "col < n"
    using sq row col by (simp_all add: b_def n_def)
  have r: "along (\<lambda>i. board_at b row i) col od [0..<n] (itv, tys) =
           Inr (S itv (map (\<lambda>i. (row, i)) [0..<n]), tys @ T (map (\<lambda>i. (row, i)) [0..<n]))"
    for itv tys
    unfolding S_def T_def
    by (rule along_line) (simp_all add: square_board_at [OF sq' row'])
  have c: "along (\<lambda>i. board_at b i col) row od [0..<n] (itv, tys) =
           Inr (S itv (map (\<lambda>i. (i, col)) [0..<n]), tys @ T (map (\<lambda>i. (i, col)) [0..<n]))"
    for itv tys
    unfolding S_def T_def
    by (rule along_line) (simp_all add: square_board_at [OF sq' _ col'])
  have d: "along (\<lambda>i. board_at b i i) row od [0..<n] (itv, tys) =
           Inr (S itv (map (\<lambda>i. (i, i)) [0..<n]), tys @ T (map (\<lambda>i. (i, i)) [0..<n]))"
    if "row = col" for itv tys
    unfolding S_def T_def
    using that by (intro along_line) (auto simp: square_board_at [OF sq'])
  have a: "along (\<lambda>i. board_at b i (n - 1 - i)) row od [0..<n] (itv, tys) =
           Inr (S itv (map (\<lambda>i. (i, n - 1 - i)) [0..<n]),
                tys @ T (map (\<lambda>i. (i, n - 1 - i)) [0..<n]))"
    if "row + col + 1 = n" for itv tys
    unfolding S_def T_def
  proof (rule along_line)
    show "\<forall>i\<in>set [0..<n]. i \<noteq> row \<longrightarrow>
            board_at b i (n - 1 - i) = Inr (b ! fst (i, n - 1 - i) ! snd (i, n - 1 - i))"
      by (auto intro!: square_board_at [OF sq'])
    show "\<forall>i\<in>set [0..<n]. ((i, n - 1 - i) \<noteq> (row, col)) = (i \<noteq> row)"
      using that by auto
  qed
  have anti: "(int row + int col = int n - 1) = (row + col + 1 = n)"
    by linarith
  have d': "(if row = col then
               case along (\<lambda>i. board_at b i i) row od [0..<n] (itv, tys) of
                 Inl e \<Rightarrow> Inl e
               | Inr (itv2, bingo_types) \<Rightarrow> Inr (Some itv2, bingo_types)
             else Inr (None, tys)) =
            Inr (if row = col then Some (S itv (map (\<lambda>i. (i, i)) [0..<n])) else None,
                 tys @ (if row = col then T (map (\<lambda>i. (i, i)) [0..<n]) else []))" for itv tys
    using d [of itv tys] by (cases "row = col") simp_all
  have a': "(if int row + int col = int n - 1 then
               case along (\<lambda>i. board_at b i (n - 1 - i)) row od [0..<n] (itv, tys) of
                 Inl e \<Rightarrow> Inl e
               | Inr (itv3, bingo_types) \<Rightarrow> Inr (Some itv3, bingo_types)
             else Inr (None, tys)) =
            Inr (if row + col + 1 = n then Some (S itv (map (\<lambda>i. (i, n - 1 - i)) [0..<n])) else None,
                 tys @ (if row + col + 1 = n then T (map (\<lambda>i. (i, n - 1 - i)) [0..<n]) else []))"
    for itv tys
    unfolding anti using a [of itv tys] by (cases "row + col + 1 = n") simp_all
  have "count_bingo_constraints context row col =
          Inr \<lparr>tier_interval =
                 foldl (\<lambda>acc itv. intersection acc (the itv)) od
                   (filter (\<lambda>v. v \<noteq> None)
                     [Some (S (bingo_difficulty context) (map (\<lambda>i. (row, i)) [0..<n])),
                      Some (S (bingo_difficulty context) (map (\<lambda>i. (i, col)) [0..<n])),
                      if row = col then Some (S (bingo_difficulty context) (map (\<lambda>i. (i, i)) [0..<n]))
                      else None,
                      if row + col + 1 = n
                      then Some (S (bingo_difficulty context) (map (\<lambda>i. (i, n - 1 - i)) [0..<n]))
                      else None]),
               exclude_types =
                 T (map (\<lambda>i. (row, i)) [0..<n]) @ T (map (\<lambda>i. (i, col)) [0..<n]) @
                 (if row = col then T (map (\<lambda>i. (i, i)) [0..<n]) else []) @
                 (if row + col + 1 = n then T (map (\<lambda>i. (i, n - 1 - i)) [0..<n]) else [])\<rparr>"
    unfolding count_bingo_constraints_def defs
    by (simp only: r c d' a' clone_id sum.case prod.case append_Nil append_assoc)
  also have "\<dots> = Inr \<lparr>tier_interval = admissible_interval b n od (bingo_difficulty context) row col,
                exclude_types =
                  map (\<lambda>(r, c). types (the (b ! r ! c)))
                    (filter (\<lambda>(r, c). b ! r ! c \<noteq> None) (other_cells n row col))\<rparr>"
    by (simp add: admissible_interval_def line_interval_def lines_through_def other_cells_def
        S_def T_def anti)
  finally show ?thesis
    by (simp only: defs)
qed






section \<open>The equations of the engine\<close>

declare generate_board_helper.simps [simp del] for_objective.simps [simp del]

lemma helper_0: "generate_board_helper bingo_data rnd 0 s = None"
  by (cases s) (simp add: generate_board_helper.simps)

lemma helper_Suc:
  "generate_board_helper bingo_data rnd (Suc fuel) (context, k) =
    (if depth context \<ge> size_ctx context * size_ctx context then Some (Inr (True, enter context, k))
     else
       (case count_bingo_constraints (enter context) (depth context div size_ctx context)
               (depth context mod size_ctx context) of
          Inl e \<Rightarrow> Some (Inl e)
        | Inr constraints \<Rightarrow>
       (case narrow_bingo_pool bingo_data (type_exclusivity context)
               (tier_interval constraints) (exclude_types constraints) (objective_names context) of
          Inl e \<Rightarrow> Some (Inl e)
        | Inr pool \<Rightarrow>
            if pool = [] then Some (Inr (False, enter context, k))
            else for_objective bingo_data rnd fuel (depth context div size_ctx context)
                   (depth context mod size_ctx context) (fst (shuffle_array rnd pool k))
                   ((enter context)\<lparr>depth := depth context + 1\<rparr>,
                    snd (shuffle_array rnd pool k)))))"
  by (simp add: generate_board_helper.simps Let_def enter_def split: sum.splits prod.splits)

lemma for_objective_Nil:
  "for_objective bingo_data rnd fuel row col [] (context, k) =
     Some (Inr (False, unplace context row col, k))"
  by (simp add: for_objective.simps unplace_def)

lemma for_objective_Cons:
  "for_objective bingo_data rnd fuel row col (objective # rest) (context, k) =
    (case generate_board_helper bingo_data rnd fuel (place context row col objective, k) of
       None \<Rightarrow> None
     | Some (Inl e) \<Rightarrow> Some (Inl e)
     | Some (Inr (result, context', k')) \<Rightarrow>
         if result then Some (Inr (True, context', k'))
         else if depth context' > 5 then
           if backtracks context' + 1 \<ge> BACKTRACK_LIMIT
           then Some (Inr (False, unplace (dead_end context' objective) row col, k'))
           else for_objective bingo_data rnd fuel row col rest (dead_end context' objective, k')
         else for_objective bingo_data rnd fuel row col rest
                ((dead_end context' objective)\<lparr>backtracks := 0\<rparr>, k'))"
  by (simp add: for_objective.simps Let_def place_def dead_end_def unplace_def
      split: option.splits sum.splits prod.splits)

section \<open>What a call leaves unchanged\<close>

lemma mset_shuffle_from:
  "i \<le> length array \<Longrightarrow> mset (fst (shuffle_from rnd i array k)) = mset array"
proof (induction i arbitrary: array k)
  case 0
  then show ?case by simp
next
  case (Suc i)
  have j: "rnd k mod (i + 1) < length array"
  proof -
    have "rnd k mod (i + 1) < i + 1" by simp
    with Suc.prems show ?thesis by linarith
  qed
  have i: "i < length array" using Suc.prems by simp
  have "mset (array[i := array ! (rnd k mod (i + 1)), rnd k mod (i + 1) := array ! i]) = mset array"
    using mset_swap [OF j i] by simp
  then show ?case
    using Suc.IH [of "array[i := array ! (rnd k mod (i + 1)), rnd k mod (i + 1) := array ! i]" "Suc k"]
      Suc.prems
    by (simp add: Let_def)
qed

lemma mset_shuffle_array: "mset (fst (shuffle_array rnd array k)) = mset array"
  by (simp add: shuffle_array_def mset_shuffle_from)

lemma set_shuffle_array: "set (fst (shuffle_array rnd array k)) = set array"
  using mset_shuffle_array [of rnd array k] by (metis set_mset_mset)

lemma narrow_bingo_pool_Inr:
  assumes "narrow_bingo_pool bingo_data policy itv forbidden used = Inr pool"
  shows "\<forall>obj \<in> set pool. obj \<in> set (bingo_pool bingo_data) \<and> contains itv (int (tier obj)) \<and>
           name obj \<notin> used"
  using assms
  by (auto simp: narrow_bingo_pool_def Let_def split: if_splits)

lemma same_parameters_simps [simp]:
  "same_parameters c c"
  "same_parameters c (enter c')  = same_parameters c c'"
  "same_parameters c (place c' row col obj) = same_parameters c c'"
  "same_parameters c (dead_end c' obj) = same_parameters c c'"
  "same_parameters c (unplace c' row col) = same_parameters c c'"
  "same_parameters c (c'\<lparr>backtracks := x\<rparr>) = same_parameters c c'"
  "same_parameters c (c'\<lparr>depth := y\<rparr>) = same_parameters c c'"
  "same_parameters (enter c) c'  = same_parameters c c'"
  "same_parameters (place c row col obj) c' = same_parameters c c'"
  "same_parameters (dead_end c obj) c' = same_parameters c c'"
  "same_parameters (unplace c row col) c' = same_parameters c c'"
  "same_parameters (c\<lparr>backtracks := x\<rparr>) c' = same_parameters c c'"
  "same_parameters (c\<lparr>depth := y\<rparr>) c' = same_parameters c c'"
  by (simp_all add: same_parameters_def enter_def place_def dead_end_def unplace_def)

lemma same_parameters_trans:
  "same_parameters a b \<Longrightarrow> same_parameters b c \<Longrightarrow> same_parameters a c"
  by (simp add: same_parameters_def)

lemma enter_simps [simp]:
  "depth (enter c) = depth c" "board (enter c) = board c"
  "objective_names (enter c) = objective_names c" "size_ctx (enter c) = size_ctx c"
  "objective_difficulty (enter c) = objective_difficulty c"
  "bingo_difficulty (enter c) = bingo_difficulty c"
  "type_exclusivity (enter c) = type_exclusivity c"
  by (simp_all add: enter_def)

lemma place_simps [simp]:
  "depth (place c row col obj) = depth c"
  "board (place c row col obj) = (board c)[row := (board c ! row)[col := Some obj]]"
  "objective_names (place c row col obj) = insert (name obj) (objective_names c)"
  "size_ctx (place c row col obj) = size_ctx c"
  "objective_difficulty (place c row col obj) = objective_difficulty c"
  "bingo_difficulty (place c row col obj) = bingo_difficulty c"
  "type_exclusivity (place c row col obj) = type_exclusivity c"
  by (simp_all add: place_def)

lemma dead_end_simps [simp]:
  "depth (dead_end c obj) = depth c" "board (dead_end c obj) = board c"
  "objective_names (dead_end c obj) = objective_names c - {name obj}"
  "size_ctx (dead_end c obj) = size_ctx c"
  "backtracks (dead_end c obj) = backtracks c + 1"
  "objective_difficulty (dead_end c obj) = objective_difficulty c"
  "bingo_difficulty (dead_end c obj) = bingo_difficulty c"
  "type_exclusivity (dead_end c obj) = type_exclusivity c"
  by (simp_all add: dead_end_def)

lemma unplace_simps [simp]:
  "depth (unplace c row col) = depth c - 1"
  "board (unplace c row col) = (board c)[row := (board c ! row)[col := None]]"
  "objective_names (unplace c row col) = objective_names c"
  "size_ctx (unplace c row col) = size_ctx c"
  "objective_difficulty (unplace c row col) = objective_difficulty c"
  "bingo_difficulty (unplace c row col) = bingo_difficulty c"
  "type_exclusivity (unplace c row col) = type_exclusivity c"
  by (simp_all add: unplace_def)

lemma for_objective_frame:
  assumes IH: "\<And>c k res c' k'.
      generate_board_helper bingo_data rnd fuel (c, k) = Some (Inr (res, c', k')) \<Longrightarrow>
      same_parameters c c' \<and>
      (\<not> res \<longrightarrow> depth c' = depth c \<and> objective_names c' = objective_names c)"
  shows "\<forall>obj \<in> set pool. name obj \<notin> objective_names c \<Longrightarrow>
         for_objective bingo_data rnd fuel row col pool (c, k) = Some (Inr (res, c', k')) \<Longrightarrow>
         same_parameters c c' \<and>
         (\<not> res \<longrightarrow> depth c' = depth c - 1 \<and> objective_names c' = objective_names c)"
proof (induction pool arbitrary: c k)
  case Nil
  then show ?case by (auto simp: for_objective_Nil)
next
  case (Cons obj pool)
  from Cons.prems(2) obtain r1 c1 k1 where
    h: "generate_board_helper bingo_data rnd fuel (place c row col obj, k) = Some (Inr (r1, c1, k1))"
    by (auto simp: for_objective_Cons split: option.splits sum.splits)
  note f = IH [OF h]
  show ?case
  proof (cases r1)
    case True
    with Cons.prems(2) h f show ?thesis
      by (auto simp: for_objective_Cons)
  next
    case False
    with f have d: "depth c1 = depth c" and n: "objective_names c1 = insert (name obj) (objective_names c)"
      and sp: "same_parameters c c1"
      by simp_all
    have fresh: "name obj \<notin> objective_names c" using Cons.prems(1) by simp
    have names: "objective_names (dead_end c1 obj) = objective_names c"
      using n fresh by simp
    have rest: "\<forall>x \<in> set pool. name x \<notin> objective_names (dead_end c1 obj)"
      using Cons.prems(1) names by simp
    consider
      (stop) "depth c1 > 5" "backtracks c1 + 1 \<ge> BACKTRACK_LIMIT"
        "res = False" "c' = unplace (dead_end c1 obj) row col"
    | (continue) "depth c1 > 5"
        "for_objective bingo_data rnd fuel row col pool (dead_end c1 obj, k1) = Some (Inr (res, c', k'))"
    | (reset) "\<not> depth c1 > 5"
        "for_objective bingo_data rnd fuel row col pool ((dead_end c1 obj)\<lparr>backtracks := 0\<rparr>, k1)
           = Some (Inr (res, c', k'))"
      using Cons.prems(2) h False by (auto simp: for_objective_Cons split: if_splits)
    then show ?thesis
    proof cases
      case stop
      then show ?thesis using sp d names by simp
    next
      case continue
      from Cons.IH [OF rest continue(2)] show ?thesis
        using sp d names by (auto simp: same_parameters_def)
    next
      case reset
      have rest': "\<forall>x \<in> set pool. name x \<notin> objective_names ((dead_end c1 obj)\<lparr>backtracks := 0\<rparr>)"
        using rest by simp
      from Cons.IH [OF rest' reset(2)] show ?thesis
        using sp d names by (auto simp: same_parameters_def)
    qed
  qed
qed

lemma generate_board_helper_frame:
  "generate_board_helper bingo_data rnd fuel (c, k) = Some (Inr (res, c', k')) \<Longrightarrow>
   same_parameters c c' \<and>
   (\<not> res \<longrightarrow> depth c' = depth c \<and> objective_names c' = objective_names c)"
proof (induction fuel arbitrary: c k res c' k')
  case 0
  then show ?case by (simp add: helper_0)
next
  case (Suc fuel)
  show ?case
  proof (cases "depth c \<ge> size_ctx c * size_ctx c")
    case True
    with Suc.prems show ?thesis by (auto simp: helper_Suc)
  next
    case False
    from Suc.prems False obtain cs pool where
      cs: "count_bingo_constraints (enter c) (depth c div size_ctx c) (depth c mod size_ctx c) = Inr cs"
      and pool: "narrow_bingo_pool bingo_data (type_exclusivity c) (tier_interval cs)
                   (exclude_types cs) (objective_names c) = Inr pool"
      by (auto simp: helper_Suc split: sum.splits)
    show ?thesis
    proof (cases "pool = []")
      case True
      with Suc.prems False cs pool show ?thesis by (auto simp: helper_Suc)
    next
      case ne: False
      let ?c1 = "(enter c)\<lparr>depth := depth c + 1\<rparr>"
      have run: "for_objective bingo_data rnd fuel (depth c div size_ctx c) (depth c mod size_ctx c)
                   (fst (shuffle_array rnd pool k)) (?c1, snd (shuffle_array rnd pool k))
                 = Some (Inr (res, c', k'))"
        using Suc.prems False cs pool ne by (simp add: helper_Suc)
      have fresh: "\<forall>obj \<in> set (fst (shuffle_array rnd pool k)). name obj \<notin> objective_names ?c1"
        using narrow_bingo_pool_Inr [OF pool] by (simp add: set_shuffle_array)
      from for_objective_frame [OF Suc.IH fresh run] show ?thesis
        by simp
    qed
  qed
qed

section \<open>The search invariant\<close>

lemma length_concat_rows:
  "\<forall>x \<in> set b. length x = n \<Longrightarrow> length (concat b) = length b * n"
  by (induction b) simp_all

lemma nth_concat_rows:
  "\<forall>x \<in> set b. length x = n \<Longrightarrow> r < length b \<Longrightarrow> c < n \<Longrightarrow>
   concat b ! (r * n + c) = b ! r ! c"
proof (induction b arbitrary: r)
  case Nil
  then show ?case by simp
next
  case (Cons x b)
  show ?case
  proof (cases r)
    case 0
    with Cons.prems show ?thesis by (simp add: nth_append)
  next
    case (Suc r')
    with Cons.prems have "concat b ! (r' * n + c) = b ! r' ! c"
      by (intro Cons.IH) simp_all
    with Suc Cons.prems show ?thesis by (simp add: nth_append)
  qed
qed

lemma concat_update_rows:
  "\<forall>x \<in> set b. length x = n \<Longrightarrow> r < length b \<Longrightarrow> c < n \<Longrightarrow>
   concat (b[r := (b ! r)[c := v]]) = (concat b)[r * n + c := v]"
proof (induction b arbitrary: r)
  case Nil
  then show ?case by simp
next
  case (Cons x b)
  show ?case
  proof (cases r)
    case 0
    with Cons.prems show ?thesis by (simp add: list_update_append)
  next
    case (Suc r')
    with Cons.prems have "concat (b[r' := (b ! r')[c := v]]) = (concat b)[r' * n + c := v]"
      by (intro Cons.IH) simp_all
    with Suc Cons.prems show ?thesis by (simp add: list_update_append)
  qed
qed

lemma map_filter_prefix:
  "d \<le> length xs \<Longrightarrow> \<forall>i < length xs. (xs ! i \<noteq> None) = (i < d) \<Longrightarrow>
   List.map_filter (\<lambda>cell. cell) xs = map the (take d xs)"
proof (induction xs arbitrary: d)
  case Nil
  then show ?case by (simp add: map_filter_simps)
next
  case (Cons x xs)
  show ?case
  proof (cases d)
    case 0
    with Cons.prems(2) have "\<forall>i < length (x # xs). (x # xs) ! i = None" by simp
    then have "\<forall>y \<in> set (x # xs). y = None"
      by (metis in_set_conv_nth)
    then have "List.map_filter (\<lambda>cell. cell) (x # xs) = []"
      by (simp add: List.map_filter_def filter_empty_conv)
    with 0 show ?thesis by simp
  next
    case (Suc d')
    from Cons.prems(2) Suc have x: "x \<noteq> None" by auto
    have "\<forall>i < length xs. (xs ! i \<noteq> None) = (i < d')"
    proof (intro allI impI)
      fix i assume "i < length xs"
      with Cons.prems(2) [rule_format, of "Suc i"] Suc show "(xs ! i \<noteq> None) = (i < d')" by simp
    qed
    with Cons.IH [of d'] Cons.prems(1) Suc
    have "List.map_filter (\<lambda>cell. cell) xs = map the (take d' xs)" by simp
    with x Suc show ?thesis by (auto simp: map_filter_simps)
  qed
qed

lemma foldl_sub_bounds:
  "min_itv (foldl sub itv xs) = min_itv itv - sum_list (map max_itv xs) \<and>
   max_itv (foldl sub itv xs) = max_itv itv - sum_list (map min_itv xs)"
  by (induction xs arbitrary: itv) (simp_all add: sub_def)

lemma contains_foldl_intersection:
  "contains (foldl intersection itv xs) v \<longleftrightarrow> contains itv v \<and> (\<forall>x \<in> set xs. contains x v)"
  by (induction xs arbitrary: itv) (auto simp: intersection_def contains_def)

lemma nth_update_grid:
  "r < length b \<Longrightarrow> c < length (b ! r) \<Longrightarrow>
   (b[r := (b ! r)[c := v]]) ! r' ! c' = (if r' = r \<and> c' = c then v else b ! r' ! c')"
  by (cases "r' = r") (auto simp: nth_list_update)

lemma lines_through_cells:
  assumes "row < n" "col < n" "line \<in> set (lines_through n row col)"
  shows "distinct line \<and> (row, col) \<in> set line \<and> (\<forall>p \<in> set line. fst p < n \<and> snd p < n)"
proof -
  have d: "distinct (map f [0..<n])" if "inj f" for f :: "nat \<Rightarrow> nat \<times> nat"
    using that by (simp add: distinct_map inj_on_def)
  have 1: "distinct (map (\<lambda>i. (row, i)) [0..<n])" by (rule d) (simp add: inj_on_def)
  have 2: "distinct (map (\<lambda>i. (i, col)) [0..<n])" by (rule d) (simp add: inj_on_def)
  have 3: "distinct (map (\<lambda>i. (i, i)) [0..<n])" by (rule d) (simp add: inj_on_def)
  have 4: "distinct (map (\<lambda>i. (i, n - 1 - i)) [0..<n])" by (rule d) (simp add: inj_on_def)
  have anti: "(row, col) \<in> (\<lambda>i. (i, n - 1 - i)) ` {0..<n}" if "int row + int col = int n - 1"
  proof -
    from that have "col = n - 1 - row" by linarith
    with assms(1) show ?thesis by auto
  qed
  show ?thesis
    using assms 1 2 3 4 anti
    by (auto simp: lines_through_def split: if_splits)
qed

lemma lines_through_other:
  assumes "r < n" "c < n" "line \<in> set (lines_through n r c)" "(row, col) \<in> set line"
  shows "line \<in> set (lines_through n row col)"
proof -
  have anti: "int row + int col = int n - 1" if "row < n" "col = n - 1 - row" for row col
    using that by linarith
  show ?thesis
    using assms
    by (auto simp: lines_through_def anti split: if_splits)
qed

lemma sum_list_split_one:
  fixes f :: "'a \<Rightarrow> int"
  assumes "t \<in> set line" "distinct line"
  shows "sum_list (map f line) = f t + sum_list (map f (filter (\<lambda>p. p \<noteq> t) line))"
  using assms
proof (induction line)
  case Nil
  then show ?case by simp
next
  case (Cons x line)
  show ?case
  proof (cases "x = t")
    case True
    with Cons.prems have "t \<notin> set line" by simp
    then have "filter (\<lambda>p. p \<noteq> t) line = line"
      by (simp add: filter_id_conv) blast
    with True show ?thesis by simp
  next
    case False
    with Cons show ?thesis by simp
  qed
qed

lemma line_interval_complete:
  assumes "\<forall>p \<in> set line. p \<noteq> t \<longrightarrow> b ! fst p ! snd p \<noteq> None"
  shows "line_interval b od bd t line =
           \<lparr>min_itv = min_itv bd - sum_list (map (tier_at b) (filter (\<lambda>p. p \<noteq> t) line)),
            max_itv = max_itv bd - sum_list (map (tier_at b) (filter (\<lambda>p. p \<noteq> t) line))\<rparr>"
proof -
  have c: "map (\<lambda>(r, c). contribution od (b ! r ! c)) (filter (\<lambda>p. p \<noteq> t) line) =
           map (\<lambda>p. valueOf (tier_at b p)) (filter (\<lambda>p. p \<noteq> t) line)"
    using assms
    by (intro map_cong refl) (auto simp: contribution_def tier_at_def split: option.splits)
  have "min_itv (line_interval b od bd t line) =
          min_itv bd - sum_list (map (tier_at b) (filter (\<lambda>p. p \<noteq> t) line))"
       "max_itv (line_interval b od bd t line) =
          max_itv bd - sum_list (map (tier_at b) (filter (\<lambda>p. p \<noteq> t) line))"
    unfolding line_interval_def c
    by (simp_all add: foldl_sub_bounds comp_def valueOf_def)
  then show ?thesis by simp
qed

lemma placed_line_ok:
  assumes sq: "square_board b n" and row: "row < n" and col: "col < n"
    and line: "line \<in> set (lines_through n row col)"
    and complete: "line_complete (b[row := (b ! row)[col := Some obj]]) line"
    and fits: "contains (line_interval b od bd (row, col) line) (int (tier obj))"
  shows "contains bd (line_sum (b[row := (b ! row)[col := Some obj]]) line)"
proof -
  let ?b' = "b[row := (b ! row)[col := Some obj]]"
  let ?t = "(row, col)"
  from lines_through_cells [OF row col line]
  have dist: "distinct line" and t: "?t \<in> set line" by simp_all
  have rl: "row < length b" and cl: "col < length (b ! row)"
    using sq row col by (simp_all add: square_board_def list_all_length)
  have at: "?b' ! fst p ! snd p = (if p = ?t then Some obj else b ! fst p ! snd p)" for p
    using nth_update_grid [OF rl cl, of "Some obj" "fst p" "snd p"] by (cases p) auto
  have others: "\<forall>p \<in> set line. p \<noteq> ?t \<longrightarrow> b ! fst p ! snd p \<noteq> None"
  proof (intro ballI impI)
    fix p assume "p \<in> set line" "p \<noteq> ?t"
    with complete have "?b' ! fst p ! snd p \<noteq> None"
      by (simp add: line_complete_def list_all_iff)
    with \<open>p \<noteq> ?t\<close> show "b ! fst p ! snd p \<noteq> None"
      by (simp add: at)
  qed
  have same: "map (tier_at ?b') (filter (\<lambda>p. p \<noteq> ?t) line) =
              map (tier_at b) (filter (\<lambda>p. p \<noteq> ?t) line)"
    by (intro map_cong refl) (simp add: tier_at_def at)
  have "line_sum ?b' line =
          tier_at ?b' ?t + sum_list (map (tier_at ?b') (filter (\<lambda>p. p \<noteq> ?t) line))"
    unfolding line_sum_def by (rule sum_list_split_one [OF t dist])
  also have "tier_at ?b' ?t = int (tier obj)"
    using at [of ?t] by (simp add: tier_at_def)
  finally have s: "line_sum ?b' line =
      int (tier obj) + sum_list (map (tier_at b) (filter (\<lambda>p. p \<noteq> ?t) line))"
    by (simp add: same)
  from fits show ?thesis
    unfolding line_interval_complete [OF others] s contains_def by simp
qed

lemma lines_ok_place:
  assumes ok: "lines_ok b n bd" and sq: "square_board b n" and row: "row < n" and col: "col < n"
    and fits: "contains (admissible_interval b n od bd row col) (int (tier obj))"
  shows "lines_ok (b[row := (b ! row)[col := Some obj]]) n bd"
  unfolding lines_ok_def
proof (intro allI impI ballI)
  let ?b' = "b[row := (b ! row)[col := Some obj]]"
  fix r c line
  assume r: "r < n" and c: "c < n" and line: "line \<in> set (lines_through n r c)"
    and complete: "line_complete ?b' line"
  have rl: "row < length b" and cl: "col < length (b ! row)"
    using sq row col by (simp_all add: square_board_def list_all_length)
  have at: "?b' ! fst p ! snd p = (if p = (row, col) then Some obj else b ! fst p ! snd p)" for p
    using nth_update_grid [OF rl cl, of "Some obj" "fst p" "snd p"] by (cases p) auto
  show "contains bd (line_sum ?b' line)"
  proof (cases "(row, col) \<in> set line")
    case True
    then have through: "line \<in> set (lines_through n row col)"
      by (rule lines_through_other [OF r c line])
    from fits have "contains (line_interval b od bd (row, col) line) (int (tier obj))"
      using through by (simp add: admissible_interval_def contains_foldl_intersection)
    then show ?thesis
      by (rule placed_line_ok [OF sq row col through complete])
  next
    case False
    then have same: "\<forall>p \<in> set line. ?b' ! fst p ! snd p = b ! fst p ! snd p"
      by (auto simp: at)
    then have "line_complete b line"
      using complete by (simp add: line_complete_def list_all_iff)
    moreover have "line_sum ?b' line = line_sum b line"
      unfolding line_sum_def using same by (intro arg_cong [of _ _ sum_list] map_cong refl) (simp add: tier_at_def)
    ultimately show ?thesis
      using ok r c line by (simp add: lines_ok_def)
  qed
qed

lemma square_board_rows:
  "square_board b n \<Longrightarrow> length b = n \<and> (\<forall>x \<in> set b. length x = n)"
  by (simp add: square_board_def list_all_iff)

lemma cell_position:
  fixes d n :: nat
  assumes "d < n * n"
  shows "d div n < n" "d mod n < n" "d div n * n + d mod n = d"
proof -
  from assms have n: "0 < n" by (cases n) simp_all
  show "d div n < n" using assms by (simp add: less_mult_imp_div_less)
  show "d mod n < n" using n by simp
  show "d div n * n + d mod n = d" by simp
qed

lemma filled_to_length: "filled_to b n d \<Longrightarrow> length (concat b) = n * n"
  using length_concat_rows [of b n] square_board_rows [of b n] by (simp add: filled_to_def)

lemma filled_to_objectives:
  assumes "filled_to b n d"
  shows "board_objectives b = map the (take d (concat b))"
  unfolding board_objectives_def
  using assms filled_to_length [OF assms]
  by (intro map_filter_prefix) (simp_all add: filled_to_def)

lemma filled_to_cell:
  assumes "filled_to b n d" "r < n" "c < n"
  shows "(b ! r ! c \<noteq> None) = (r * n + c < d)"
proof -
  from assms(1) have "square_board b n" by (simp add: filled_to_def)
  from square_board_rows [OF this] have sq: "length b = n" "\<forall>x \<in> set b. length x = n"
    by simp_all
  have "r * n + c < n * n"
  proof -
    have "r * n + c < r * n + n" using assms(3) by simp
    also have "\<dots> = Suc r * n" by simp
    also have "\<dots> \<le> n * n" using assms(2) by (metis Suc_leI mult_le_mono1)
    finally show ?thesis .
  qed
  with assms(1) have "(concat b ! (r * n + c) \<noteq> None) = (r * n + c < d)"
    by (simp add: filled_to_def)
  then show ?thesis
    using nth_concat_rows [OF sq(2), of r c] sq(1) assms(2,3) by simp
qed

lemma filled_to_next_empty:
  assumes "filled_to b n d" "d < n * n"
  shows "b ! (d div n) ! (d mod n) = None"
  using filled_to_cell [OF assms(1) cell_position(1,2) [OF assms(2)]] cell_position(3) [OF assms(2)]
  by simp

lemma filled_to_unplace:
  assumes "filled_to b n d" "d < n * n"
  shows "b[d div n := (b ! (d div n))[d mod n := None]] = b"
proof -
  have "(b ! (d div n))[d mod n := None] = b ! (d div n)"
    using filled_to_next_empty [OF assms] by (metis list_update_id)
  then show ?thesis by simp
qed

lemma filled_to_place:
  assumes f: "filled_to b n d" and d: "d < n * n"
  shows "filled_to (b[d div n := (b ! (d div n))[d mod n := Some obj]]) n (Suc d)"
    and "board_objectives (b[d div n := (b ! (d div n))[d mod n := Some obj]]) =
         board_objectives b @ [obj]"
proof -
  let ?b' = "b[d div n := (b ! (d div n))[d mod n := Some obj]]"
  from f have "square_board b n" by (simp add: filled_to_def)
  from square_board_rows [OF this] have sq: "length b = n" "\<forall>x \<in> set b. length x = n"
    by simp_all
  note pos = cell_position [OF d]
  have len: "length (concat b) = n * n" by (rule filled_to_length [OF f])
  have cc: "concat ?b' = (concat b)[d := Some obj]"
    using concat_update_rows [OF sq(2), of "d div n" "d mod n" "Some obj"] pos sq(1) by simp
  have sq': "square_board ?b' n"
    using f pos sq by (auto simp: filled_to_def square_board_def list_all_length nth_list_update)
  show f': "filled_to ?b' n (Suc d)"
    unfolding filled_to_def cc
    using sq' d f len by (auto simp: filled_to_def nth_list_update)
  have "board_objectives ?b' = map the (take (Suc d) ((concat b)[d := Some obj]))"
    using filled_to_objectives [OF f'] cc by simp
  also have "\<dots> = map the (take d (concat b)) @ [obj]"
    using d len by (simp add: take_Suc_conv_app_nth)
  finally show "board_objectives ?b' = board_objectives b @ [obj]"
    by (simp add: filled_to_objectives [OF f])
qed

lemma search_invariant_place:
  assumes inv: "search_invariant c0" and d: "depth c0 < size_ctx c0 * size_ctx c0"
    and fresh: "name obj \<notin> objective_names c0"
    and fits: "contains (admissible_interval (board c0) (size_ctx c0) (objective_difficulty c0)
                 (bingo_difficulty c0) (depth c0 div size_ctx c0) (depth c0 mod size_ctx c0))
                 (int (tier obj))"
    and b: "board c1 = (board c0)[depth c0 div size_ctx c0 :=
                         (board c0 ! (depth c0 div size_ctx c0))[depth c0 mod size_ctx c0 := Some obj]]"
    and dp: "depth c1 = Suc (depth c0)"
    and nm: "objective_names c1 = insert (name obj) (objective_names c0)"
    and sp: "same_parameters c0 c1"
  shows "search_invariant c1"
proof -
  from inv have f: "filled_to (board c0) (size_ctx c0) (depth c0)"
    by (simp add: search_invariant_def)
  then have sq: "square_board (board c0) (size_ctx c0)" by (simp add: filled_to_def)
  note pos = cell_position [OF d]
  note pl = filled_to_place [OF f d, of obj]
  have od: "contains (objective_difficulty c0) (int (tier obj))"
    using fits by (simp add: admissible_interval_def contains_foldl_intersection)
  have "lines_ok (board c1) (size_ctx c0) (bingo_difficulty c0)"
    unfolding b using inv sq pos(1,2) fits
    by (intro lines_ok_place) (simp_all add: search_invariant_def)
  then show ?thesis
    using inv pl fresh od sp
    by (simp add: search_invariant_def b dp nm same_parameters_def)
qed

lemma search_invariant_cong:
  assumes "board c' = board c" "depth c' = depth c" "objective_names c' = objective_names c"
    "same_parameters c c'"
  shows "search_invariant c' = search_invariant c"
  using assms by (simp add: search_invariant_def same_parameters_def)

lemma grid_overwrite:
  "(b[r := (b ! r)[c := v]])[r := ((b[r := (b ! r)[c := v]]) ! r)[c := w]] = b[r := (b ! r)[c := w]]"
  by (cases "r < length b") (simp_all add: list_update_beyond)

lemma try_objective:
  assumes inv: "search_invariant c0" and d: "depth c0 < size_ctx c0 * size_ctx c0"
    and t: "trying c0 c" and adm: "admissible c0 obj"
  shows "search_invariant (place c (depth c0 div size_ctx c0) (depth c0 mod size_ctx c0) obj)"
proof -
  let ?row = "depth c0 div size_ctx c0" and ?col = "depth c0 mod size_ctx c0"
  from t have b: "(board c)[?row := (board c ! ?row)[?col := None]] = board c0"
    by (simp add: trying_def)
  have b1: "board (place c ?row ?col obj) = (board c0)[?row := (board c0 ! ?row)[?col := Some obj]]"
    unfolding b [symmetric] by (simp only: grid_overwrite place_simps)
  show ?thesis
    using adm b1 t
    by (intro search_invariant_place [OF inv d]) (simp_all add: admissible_def trying_def)
qed

lemma dead_end_trying:
  assumes inv: "search_invariant c0" and d: "depth c0 < size_ctx c0 * size_ctx c0"
    and t: "trying c0 c" and adm: "admissible c0 obj"
    and h: "generate_board_helper bingo_data rnd fuel
              (place c (depth c0 div size_ctx c0) (depth c0 mod size_ctx c0) obj, k)
            = Some (Inr (False, c2, k2))"
    and b2: "board c2 = board (place c (depth c0 div size_ctx c0) (depth c0 mod size_ctx c0) obj)"
  shows "trying c0 (dead_end c2 obj)"
    and "trying c0 ((dead_end c2 obj)\<lparr>backtracks := 0\<rparr>)"
    and "board (unplace (dead_end c2 obj) (depth c0 div size_ctx c0) (depth c0 mod size_ctx c0))
         = board c0"
    and "depth (unplace (dead_end c2 obj) (depth c0 div size_ctx c0) (depth c0 mod size_ctx c0))
         = depth c0"
    and "objective_names (unplace (dead_end c2 obj) (depth c0 div size_ctx c0)
           (depth c0 mod size_ctx c0)) = objective_names c0"
    and "same_parameters c0 c2"
proof -
  let ?row = "depth c0 div size_ctx c0" and ?col = "depth c0 mod size_ctx c0"
  from inv have f: "filled_to (board c0) (size_ctx c0) (depth c0)"
    by (simp add: search_invariant_def)
  from t have
    b: "(board c)[?row := (board c ! ?row)[?col := None]] = board c0"
    and dp: "depth c = Suc (depth c0)" and nm: "objective_names c = objective_names c0"
    and sp: "same_parameters c0 c"
    by (simp_all add: trying_def)
  have b1: "board (place c ?row ?col obj) = (board c0)[?row := (board c0 ! ?row)[?col := Some obj]]"
    unfolding b [symmetric] by (simp only: grid_overwrite place_simps)
  from generate_board_helper_frame [OF h]
  have d2: "depth c2 = Suc (depth c0)"
    and n2: "objective_names c2 = insert (name obj) (objective_names c0)"
    and sp2: "same_parameters c0 c2"
    using dp nm sp by (simp_all add: same_parameters_def)
  have cleared: "(board c2)[?row := (board c2 ! ?row)[?col := None]] = board c0"
    unfolding b2 b1 by (simp only: grid_overwrite filled_to_unplace [OF f d])
  have names: "objective_names c2 - {name obj} = objective_names c0"
    using n2 adm by (auto simp: admissible_def)
  show "trying c0 (dead_end c2 obj)" "trying c0 ((dead_end c2 obj)\<lparr>backtracks := 0\<rparr>)"
    using cleared d2 names sp2 by (simp_all add: trying_def)
  show "board (unplace (dead_end c2 obj) ?row ?col) = board c0"
    using cleared by simp
  show "depth (unplace (dead_end c2 obj) ?row ?col) = depth c0"
    using d2 by simp
  show "objective_names (unplace (dead_end c2 obj) ?row ?col) = objective_names c0"
    using names by simp
  show "same_parameters c0 c2" by (rule sp2)
qed

lemma for_objective_Cons_cases:
  assumes "for_objective bingo_data rnd fuel row col (obj # pool) (c, k) = Some (Inr (res, c', k'))"
  obtains
    (found) "res"
      "generate_board_helper bingo_data rnd fuel (place c row col obj, k) = Some (Inr (True, c', k'))"
  | (stop) c2 where "\<not> res"
      "generate_board_helper bingo_data rnd fuel (place c row col obj, k) = Some (Inr (False, c2, k'))"
      "depth c2 > 5" "backtracks (dead_end c2 obj) \<ge> BACKTRACK_LIMIT"
      "c' = unplace (dead_end c2 obj) row col"
  | (continue) c2 k2 where
      "generate_board_helper bingo_data rnd fuel (place c row col obj, k) = Some (Inr (False, c2, k2))"
      "depth c2 > 5" "backtracks (dead_end c2 obj) < BACKTRACK_LIMIT"
      "for_objective bingo_data rnd fuel row col pool (dead_end c2 obj, k2) = Some (Inr (res, c', k'))"
  | (reset) c2 k2 where
      "generate_board_helper bingo_data rnd fuel (place c row col obj, k) = Some (Inr (False, c2, k2))"
      "depth c2 \<le> 5"
      "for_objective bingo_data rnd fuel row col pool ((dead_end c2 obj)\<lparr>backtracks := 0\<rparr>, k2)
         = Some (Inr (res, c', k'))"
  using assms
  by (auto simp: for_objective_Cons split: option.splits sum.splits if_splits)

lemma for_objective_invariant:
  assumes IH: "\<And>c k res c' k'. search_invariant c \<Longrightarrow>
      generate_board_helper bingo_data rnd fuel (c, k) = Some (Inr (res, c', k')) \<Longrightarrow>
      (res \<longrightarrow> search_invariant c' \<and> depth c' \<ge> size_ctx c' * size_ctx c') \<and>
      (\<not> res \<longrightarrow> board c' = board c)"
    and inv: "search_invariant c0" and d: "depth c0 < size_ctx c0 * size_ctx c0"
  shows "trying c0 c \<Longrightarrow> \<forall>obj \<in> set pool. admissible c0 obj \<Longrightarrow>
         for_objective bingo_data rnd fuel (depth c0 div size_ctx c0) (depth c0 mod size_ctx c0)
           pool (c, k) = Some (Inr (res, c', k')) \<Longrightarrow>
         (res \<longrightarrow> search_invariant c' \<and> depth c' \<ge> size_ctx c' * size_ctx c') \<and>
         (\<not> res \<longrightarrow> board c' = board c0)"
proof (induction pool arbitrary: c k)
  case Nil
  then show ?case by (auto simp: for_objective_Nil trying_def)
next
  case (Cons obj pool)
  from Cons.prems(2) have adm: "admissible c0 obj" and rest: "\<forall>x \<in> set pool. admissible c0 x"
    by simp_all
  note inv1 = try_objective [OF inv d Cons.prems(1) adm]
  from Cons.prems(3) show ?case
  proof (cases rule: for_objective_Cons_cases)
    case found
    with IH [OF inv1 found(2)] show ?thesis by simp
  next
    case (stop c2)
    from IH [OF inv1 stop(2)] have "board c2 = board (place c (depth c0 div size_ctx c0)
        (depth c0 mod size_ctx c0) obj)" by simp
    from dead_end_trying(3) [OF inv d Cons.prems(1) adm stop(2) this] stop show ?thesis
      by simp
  next
    case (continue c2 k2)
    from IH [OF inv1 continue(1)] have "board c2 = board (place c (depth c0 div size_ctx c0)
        (depth c0 mod size_ctx c0) obj)" by simp
    from dead_end_trying(1) [OF inv d Cons.prems(1) adm continue(1) this]
    show ?thesis by (rule Cons.IH [OF _ rest continue(4)])
  next
    case (reset c2 k2)
    from IH [OF inv1 reset(1)] have "board c2 = board (place c (depth c0 div size_ctx c0)
        (depth c0 mod size_ctx c0) obj)" by simp
    from dead_end_trying(2) [OF inv d Cons.prems(1) adm reset(1) this]
    show ?thesis by (rule Cons.IH [OF _ rest reset(3)])
  qed
qed

lemma generate_board_helper_invariant:
  "search_invariant c \<Longrightarrow>
   generate_board_helper bingo_data rnd fuel (c, k) = Some (Inr (res, c', k')) \<Longrightarrow>
   (res \<longrightarrow> search_invariant c' \<and> depth c' \<ge> size_ctx c' * size_ctx c') \<and>
   (\<not> res \<longrightarrow> board c' = board c)"
proof (induction fuel arbitrary: c k res c' k')
  case 0
  then show ?case by (simp add: helper_0)
next
  case (Suc fuel)
  have inv_enter: "search_invariant (enter c)"
    using Suc.prems(1) by (simp add: search_invariant_cong [of "enter c" c])
  show ?case
  proof (cases "depth c \<ge> size_ctx c * size_ctx c")
    case True
    with Suc.prems inv_enter show ?thesis by (auto simp: helper_Suc)
  next
    case False
    then have d: "depth c < size_ctx c * size_ctx c" by simp
    let ?row = "depth c div size_ctx c" and ?col = "depth c mod size_ctx c"
    from Suc.prems(2) False obtain cs pool where
      cs: "count_bingo_constraints (enter c) ?row ?col = Inr cs"
      and pool: "narrow_bingo_pool bingo_data (type_exclusivity c) (tier_interval cs)
                   (exclude_types cs) (objective_names c) = Inr pool"
      by (auto simp: helper_Suc split: sum.splits)
    show ?thesis
    proof (cases "pool = []")
      case True
      with Suc.prems False cs pool show ?thesis by (auto simp: helper_Suc)
    next
      case ne: False
      let ?c1 = "(enter c)\<lparr>depth := depth c + 1\<rparr>"
      have run: "for_objective bingo_data rnd fuel ?row ?col
                   (fst (shuffle_array rnd pool k)) (?c1, snd (shuffle_array rnd pool k))
                 = Some (Inr (res, c', k'))"
        using Suc.prems(2) False cs pool ne by (simp add: helper_Suc)
      from Suc.prems(1) have f: "filled_to (board c) (size_ctx c) (depth c)"
        by (simp add: search_invariant_def)
      then have sq: "square_board (board (enter c)) (size_ctx (enter c))"
        by (simp add: filled_to_def)
      note pos = cell_position [OF d]
      have "tier_interval cs = admissible_interval (board c) (size_ctx c) (objective_difficulty c)
              (bingo_difficulty c) ?row ?col"
        using count_bingo_constraints_explicit [OF sq, of ?row ?col] pos cs by simp
      with narrow_bingo_pool_Inr [OF pool]
      have adm: "\<forall>obj \<in> set (fst (shuffle_array rnd pool k)). admissible c obj"
        by (simp add: set_shuffle_array admissible_def)
      have t: "trying c ?c1"
        using filled_to_unplace [OF f d] by (simp add: trying_def)
      from for_objective_invariant [OF Suc.IH Suc.prems(1) d t adm run]
      show ?thesis by simp
    qed
  qed
qed

section \<open>The search returns\<close>

lemma narrow_bingo_pool_known:
  assumes "known_policy policy"
  shows "\<exists>pool. narrow_bingo_pool bingo_data policy itv forbidden used = Inr pool"
  using assms by (auto simp: known_policy_def narrow_bingo_pool_def Let_def)

lemma for_objective_returns:
  assumes IH: "\<And>c k. search_invariant c \<Longrightarrow> known_policy (type_exclusivity c) \<Longrightarrow>
      size_ctx c * size_ctx c - depth c < fuel \<Longrightarrow>
      \<exists>res c' k'. generate_board_helper bingo_data rnd fuel (c, k) = Some (Inr (res, c', k'))"
    and inv: "search_invariant c0" and d: "depth c0 < size_ctx c0 * size_ctx c0"
    and policy: "known_policy (type_exclusivity c0)"
    and fuel: "size_ctx c0 * size_ctx c0 - Suc (depth c0) < fuel"
  shows "trying c0 c \<Longrightarrow> \<forall>obj \<in> set pool. admissible c0 obj \<Longrightarrow>
         \<exists>res c' k'. for_objective bingo_data rnd fuel (depth c0 div size_ctx c0)
           (depth c0 mod size_ctx c0) pool (c, k) = Some (Inr (res, c', k'))"
proof (induction pool arbitrary: c k)
  case Nil
  then show ?case by (auto simp: for_objective_Nil)
next
  case (Cons obj pool)
  let ?row = "depth c0 div size_ctx c0" and ?col = "depth c0 mod size_ctx c0"
  from Cons.prems(2) have adm: "admissible c0 obj" and rest: "\<forall>x \<in> set pool. admissible c0 x"
    by simp_all
  note inv1 = try_objective [OF inv d Cons.prems(1) adm]
  have "known_policy (type_exclusivity (place c ?row ?col obj))"
    and "size_ctx (place c ?row ?col obj) * size_ctx (place c ?row ?col obj)
           - depth (place c ?row ?col obj) < fuel"
    using Cons.prems(1) policy fuel by (simp_all add: trying_def same_parameters_def)
  from IH [OF inv1 this] obtain r1 c2 k2 where
    h: "generate_board_helper bingo_data rnd fuel (place c ?row ?col obj, k) = Some (Inr (r1, c2, k2))"
    by blast
  show ?case
  proof (cases r1)
    case True
    with h show ?thesis by (auto simp: for_objective_Cons)
  next
    case False
    with h have h': "generate_board_helper bingo_data rnd fuel (place c ?row ?col obj, k)
        = Some (Inr (False, c2, k2))" by simp
    from generate_board_helper_invariant [OF inv1 h']
    have b2: "board c2 = board (place c ?row ?col obj)" by simp
    note t = dead_end_trying(1,2) [OF inv d Cons.prems(1) adm h' b2]
    from Cons.IH [OF t(1) rest] Cons.IH [OF t(2) rest] show ?thesis
      by (auto simp: for_objective_Cons h')
  qed
qed

lemma generate_board_helper_returns:
  "search_invariant c \<Longrightarrow> known_policy (type_exclusivity c) \<Longrightarrow>
   size_ctx c * size_ctx c - depth c < fuel \<Longrightarrow>
   \<exists>res c' k'. generate_board_helper bingo_data rnd fuel (c, k) = Some (Inr (res, c', k'))"
proof (induction fuel arbitrary: c k)
  case 0
  then show ?case by simp
next
  case (Suc fuel)
  show ?case
  proof (cases "depth c \<ge> size_ctx c * size_ctx c")
    case True
    then show ?thesis by (auto simp: helper_Suc)
  next
    case False
    then have d: "depth c < size_ctx c * size_ctx c" by simp
    let ?row = "depth c div size_ctx c" and ?col = "depth c mod size_ctx c"
    from Suc.prems(1) have f: "filled_to (board c) (size_ctx c) (depth c)"
      by (simp add: search_invariant_def)
    then have sq: "square_board (board (enter c)) (size_ctx (enter c))"
      by (simp add: filled_to_def)
    note pos = cell_position [OF d]
    from count_bingo_constraints_explicit [OF sq, of ?row ?col] pos
    obtain cs where cs: "count_bingo_constraints (enter c) ?row ?col = Inr cs"
      and itv: "tier_interval cs = admissible_interval (board c) (size_ctx c)
                  (objective_difficulty c) (bingo_difficulty c) ?row ?col"
      by simp
    from narrow_bingo_pool_known [OF Suc.prems(2)] obtain pool where
      pool: "narrow_bingo_pool bingo_data (type_exclusivity c) (tier_interval cs)
                   (exclude_types cs) (objective_names c) = Inr pool"
      by blast
    show ?thesis
    proof (cases "pool = []")
      case True
      with False cs pool show ?thesis by (auto simp: helper_Suc)
    next
      case ne: False
      let ?c1 = "(enter c)\<lparr>depth := depth c + 1\<rparr>"
      from narrow_bingo_pool_Inr [OF pool] itv
      have adm: "\<forall>obj \<in> set (fst (shuffle_array rnd pool k)). admissible c obj"
        by (simp add: set_shuffle_array admissible_def)
      have t: "trying c ?c1"
        using filled_to_unplace [OF f d] by (simp add: trying_def)
      have fuel: "size_ctx c * size_ctx c - Suc (depth c) < fuel"
        using Suc.prems(3) d by linarith
      from for_objective_returns [OF Suc.IH Suc.prems(1) d Suc.prems(2) fuel t adm]
      show ?thesis
        using False cs pool ne by (simp add: helper_Suc)
    qed
  qed
qed

lemma for_objective_fuel:
  assumes IH: "\<And>s r. generate_board_helper bingo_data rnd fuel s = Some r \<Longrightarrow>
                generate_board_helper bingo_data rnd fuel' s = Some r"
  shows "for_objective bingo_data rnd fuel row col pool s = Some r \<Longrightarrow>
         for_objective bingo_data rnd fuel' row col pool s = Some r"
proof (induction pool arbitrary: s)
  case Nil
  then show ?case by (cases s) (simp add: for_objective_Nil)
next
  case (Cons obj pool)
  obtain c k where s: "s = (c, k)" by (cases s)
  from Cons.prems obtain r1 where
    h: "generate_board_helper bingo_data rnd fuel (place c row col obj, k) = Some r1"
    unfolding s by (auto simp: for_objective_Cons split: option.splits)
  note h' = IH [OF h]
  from Cons.prems show ?case
    unfolding s for_objective_Cons h h'
    by (auto split: sum.splits if_splits intro: Cons.IH)
qed

lemma generate_board_helper_fuel:
  "generate_board_helper bingo_data rnd fuel s = Some r \<Longrightarrow> fuel \<le> fuel' \<Longrightarrow>
   generate_board_helper bingo_data rnd fuel' s = Some r"
proof (induction fuel arbitrary: fuel' s r)
  case 0
  then show ?case by (simp add: helper_0)
next
  case (Suc fuel)
  obtain c k where s: "s = (c, k)" by (cases s)
  from Suc.prems(2) obtain m where m: "fuel' = Suc m" "fuel \<le> m"
    by (cases fuel') simp_all
  have step: "for_objective bingo_data rnd fuel row col pool s' = Some r' \<Longrightarrow>
              for_objective bingo_data rnd m row col pool s' = Some r'" for row col pool s' r'
    by (rule for_objective_fuel) (rule Suc.IH [OF _ m(2)])
  from Suc.prems(1) show ?case
    unfolding s m(1) helper_Suc
    by (auto split: sum.splits if_splits intro: step)
qed

section \<open>The results of generate_board\<close>

lemma generate_board_unfold:
  "generate_board bingo_data rnd n od bd policy =
    (case generate_board_helper bingo_data rnd (n * n + 1) (initial_context n od bd policy, 0) of
       None \<Rightarrow> None
     | Some (Inl e) \<Rightarrow> Some (Inl e)
     | Some (Inr (result, context, k)) \<Rightarrow>
         if \<not> result then
           Some (Inr (Error_value
             ''Board not found. A board may be possible but simply not found by the generator.''))
         else Some (Inr (Board (board context))))"
  by (simp add: generate_board_def initial_context_def Let_def)

lemma search_invariant_initial: "search_invariant (initial_context n od bd policy)"
proof -
  let ?b = "replicate n (replicate n (None :: Objective option))"
  have sq: "square_board ?b n" by (simp add: square_board_def list_all_iff)
  have cells: "set (concat ?b) \<subseteq> {None}" by auto
  have len: "length (concat ?b) = n * n"
    using length_concat_rows [of ?b n] by simp
  have f: "filled_to ?b n 0"
    unfolding filled_to_def
  proof (intro conjI allI impI)
    fix i assume "i < n * n"
    then have "concat ?b ! i \<in> set (concat ?b)" using len by (metis nth_mem)
    with cells show "(concat ?b ! i \<noteq> None) = (i < 0)" by auto
  qed (simp_all add: sq)
  have objs: "board_objectives ?b = []"
    using filled_to_objectives [OF f] by simp
  have lines: "lines_ok ?b n bd"
    unfolding lines_ok_def
  proof (intro allI impI ballI)
    fix r c line
    assume r: "r < n" and c: "c < n" and l: "line \<in> set (lines_through n r c)"
      and complete: "line_complete ?b line"
    from lines_through_cells [OF r c l] have "(r, c) \<in> set line" by simp
    with complete have "?b ! r ! c \<noteq> None"
      by (auto simp: line_complete_def list_all_iff)
    with r c show "contains bd (line_sum ?b line)" by simp
  qed
  show ?thesis
    using f objs lines by (simp add: search_invariant_def initial_context_def)
qed

lemma generate_board_result:
  assumes "known_policy policy"
  obtains (found) c k where
      "generate_board_helper bingo_data rnd (n * n + 1) (initial_context n od bd policy, 0)
         = Some (Inr (True, c, k))"
      "generate_board bingo_data rnd n od bd policy = Some (Inr (Board (board c)))"
  | (not_found) c k where
      "generate_board_helper bingo_data rnd (n * n + 1) (initial_context n od bd policy, 0)
         = Some (Inr (False, c, k))"
      "generate_board bingo_data rnd n od bd policy = Some (Inr (Error_value
         ''Board not found. A board may be possible but simply not found by the generator.''))"
proof -
  have "size_ctx (initial_context n od bd policy) * size_ctx (initial_context n od bd policy)
          - depth (initial_context n od bd policy) < n * n + 1"
    and "known_policy (type_exclusivity (initial_context n od bd policy))"
    using assms by (simp_all add: initial_context_def)
  from generate_board_helper_returns [OF search_invariant_initial this(2,1)]
  obtain res c k where
    h: "generate_board_helper bingo_data rnd (n * n + 1) (initial_context n od bd policy, 0)
          = Some (Inr (res, c, k))"
    by blast
  show thesis
  proof (cases res)
    case True
    with h show ?thesis by (intro found [of c k]) (simp_all add: generate_board_unfold)
  next
    case False
    with h show ?thesis by (intro not_found [of c k]) (simp_all add: generate_board_unfold)
  qed
qed

lemma generate_board_Board:
  assumes "generate_board bingo_data rnd n od bd policy = Some (Inr (Board b))"
  obtains c where "search_invariant c" "depth c = n * n" "size_ctx c = n" "board c = b"
    "objective_difficulty c = (case od of None \<Rightarrow> safeIntegerRange | Some itv \<Rightarrow> itv)"
    "bingo_difficulty c = bd"
proof -
  from assms obtain c k where
    h: "generate_board_helper bingo_data rnd (n * n + 1) (initial_context n od bd policy, 0)
          = Some (Inr (True, c, k))" and b: "board c = b"
    by (auto simp: generate_board_unfold split: option.splits sum.splits if_splits)
  from generate_board_helper_invariant [OF search_invariant_initial h]
  have inv: "search_invariant c" and d: "depth c \<ge> size_ctx c * size_ctx c" by simp_all
  from generate_board_helper_frame [OF h]
  have sp: "same_parameters (initial_context n od bd policy) c" by simp
  then have n: "size_ctx c = n"
    and od: "objective_difficulty c = (case od of None \<Rightarrow> safeIntegerRange | Some itv \<Rightarrow> itv)"
    and bd: "bingo_difficulty c = bd"
    by (simp_all add: same_parameters_def initial_context_def)
  from inv have "depth c \<le> size_ctx c * size_ctx c"
    by (simp add: search_invariant_def filled_to_def)
  with d n have "depth c = n * n" by simp
  from that [OF inv this n b od bd] show thesis .
qed

lemma sum_list_upto: "sum_list (map f [0..<n]) = (\<Sum>i<n. f i)" for f :: "nat \<Rightarrow> int"
  by (simp add: interv_sum_list_conv_sum_set_nat atLeast0LessThan)

lemma full_board_line:
  assumes inv: "search_invariant c" and full: "depth c = size_ctx c * size_ctx c"
    and r: "r < size_ctx c" and cc: "col < size_ctx c"
    and line: "line \<in> set (lines_through (size_ctx c) r col)"
  shows "contains (bingo_difficulty c) (line_sum (board c) line)"
proof -
  from inv have f: "filled_to (board c) (size_ctx c) (depth c)"
    and ok: "lines_ok (board c) (size_ctx c) (bingo_difficulty c)"
    by (simp_all add: search_invariant_def)
  have "line_complete (board c) line"
    unfolding line_complete_def list_all_iff
  proof
    fix p assume "p \<in> set line"
    with lines_through_cells [OF r cc line] have p: "fst p < size_ctx c" "snd p < size_ctx c"
      by simp_all
    have "fst p * size_ctx c + snd p < size_ctx c * size_ctx c"
    proof -
      have "fst p * size_ctx c + snd p < Suc (fst p) * size_ctx c" using p(2) by simp
      also have "\<dots> \<le> size_ctx c * size_ctx c" using p(1) by (metis Suc_leI mult_le_mono1)
      finally show ?thesis .
    qed
    with filled_to_cell [OF f p] full show "board c ! fst p ! snd p \<noteq> None" by simp
  qed
  with ok r cc line show ?thesis by (simp add: lines_ok_def)
qed

text \<open>
  C1. A board returned by \<^verbatim>\<open>generate_board\<close> is a full \<open>size \<times> size\<close> grid; the tier of every
  placed item lies within the effective per-cell interval (the given one, or the
  safe-integer interval for \<^verbatim>\<open>null\<close>); and the tier sum of every row, of every column and
  (the board having a cell) of both diagonals lies within \<open>bingo_difficulty\<close>.
\<close>

theorem generate_board_valid:
  assumes "generate_board bingo_data rnd n od bd policy = Some (Inr (Board b))"
  shows "square_board b n \<and>
    (\<forall>r < n. \<forall>c < n. \<exists>obj. b ! r ! c = Some obj \<and>
        contains (case od of None \<Rightarrow> safeIntegerRange | Some itv \<Rightarrow> itv) (int (tier obj))) \<and>
    (\<forall>r < n. contains bd (\<Sum>c < n. tier_at b (r, c))) \<and>
    (\<forall>c < n. contains bd (\<Sum>r < n. tier_at b (r, c))) \<and>
    (0 < n \<longrightarrow> contains bd (\<Sum>i < n. tier_at b (i, i)) \<and>
               contains bd (\<Sum>i < n. tier_at b (i, n - 1 - i)))"
proof -
  from assms obtain c where inv: "search_invariant c" and full: "depth c = n * n"
    and n: "size_ctx c = n" and b: "board c = b"
    and od: "objective_difficulty c = (case od of None \<Rightarrow> safeIntegerRange | Some itv \<Rightarrow> itv)"
    and bd: "bingo_difficulty c = bd"
    by (rule generate_board_Board)
  from inv have f: "filled_to b n (n * n)"
    and tiers: "\<forall>obj \<in> set (board_objectives b).
        contains (case od of None \<Rightarrow> safeIntegerRange | Some itv \<Rightarrow> itv) (int (tier obj))"
    by (simp_all add: search_invariant_def full n b od list_all_iff)
  then have sq: "square_board b n" by (simp add: filled_to_def)
  have full': "depth c = size_ctx c * size_ctx c" using full n by simp
  have cells: "\<exists>obj. b ! r ! c' = Some obj \<and>
        contains (case od of None \<Rightarrow> safeIntegerRange | Some itv \<Rightarrow> itv) (int (tier obj))"
    if r: "r < n" and c': "c' < n" for r c'
  proof -
    have lt: "r * n + c' < n * n"
    proof -
      have "r * n + c' < Suc r * n" using c' by simp
      also have "\<dots> \<le> n * n" using r by (metis Suc_leI mult_le_mono1)
      finally show ?thesis .
    qed
    with filled_to_cell [OF f r c'] obtain obj where obj: "b ! r ! c' = Some obj" by auto
    from square_board_rows [OF sq] have rows: "length b = n" "\<forall>x \<in> set b. length x = n"
      by simp_all
    have "concat b ! (r * n + c') = Some obj"
      using nth_concat_rows [OF rows(2), of r c'] rows(1) r c' obj by simp
    moreover have "r * n + c' < length (concat b)"
      using lt filled_to_length [OF f] by simp
    ultimately have "Some obj \<in> set (concat b)" by (metis nth_mem)
    then have "obj \<in> set (board_objectives b)"
      by (auto simp: board_objectives_def List.map_filter_def intro!: image_eqI [of _ the "Some obj"])
    with tiers obj show ?thesis by simp
  qed
  have line: "contains bd (line_sum b l)" if "r < n" "c' < n" "l \<in> set (lines_through n r c')"
    for r c' l
    using full_board_line [OF inv full', of r c' l] that by (simp add: n b bd)
  have rows: "contains bd (\<Sum>c' < n. tier_at b (r, c'))" if "r < n" for r
    using line [OF that that, of "map (\<lambda>i. (r, i)) [0..<n]"]
    by (simp add: lines_through_def line_sum_def comp_def sum_list_upto)
  have cols: "contains bd (\<Sum>r < n. tier_at b (r, c'))" if "c' < n" for c'
    using line [OF that that, of "map (\<lambda>i. (i, c')) [0..<n]"]
    by (simp add: lines_through_def line_sum_def comp_def sum_list_upto)
  have diag: "contains bd (\<Sum>i < n. tier_at b (i, i))" if "0 < n"
    using line [OF that that, of "map (\<lambda>i. (i, i)) [0..<n]"]
    by (simp add: lines_through_def line_sum_def comp_def sum_list_upto)
  have anti: "contains bd (\<Sum>i < n. tier_at b (i, n - 1 - i))" if "0 < n"
  proof -
    have "n - 1 < n" using that by simp
    from line [OF that this, of "map (\<lambda>i. (i, n - 1 - i)) [0..<n]"] that
    show ?thesis
      by (simp add: lines_through_def line_sum_def comp_def sum_list_upto of_nat_diff)
  qed
  from sq cells rows cols diag anti show ?thesis by blast
qed

lemma generate_board_example:
  "generate_board data (\<lambda>k. 0) 2 (Some \<lparr>min_itv = 1, max_itv = 3\<rparr>)
     \<lparr>min_itv = 2, max_itv = 6\<rparr> ''partial'' = Some (Inr (Board example_board))"
  by code_simp

theorem generate_board_valid_witness:
  "generate_board data (\<lambda>k. 0) 2 (Some \<lparr>min_itv = 1, max_itv = 3\<rparr>)
     \<lparr>min_itv = 2, max_itv = 6\<rparr> ''partial'' = Some (Inr (Board example_board)) \<and>
   square_board example_board 2 \<and>
   contains \<lparr>min_itv = 2, max_itv = 6\<rparr> (\<Sum>c < 2. tier_at example_board (0, c)) \<and>
   contains \<lparr>min_itv = 2, max_itv = 6\<rparr> (\<Sum>c < 2. tier_at example_board (1, c)) \<and>
   contains \<lparr>min_itv = 2, max_itv = 6\<rparr> (\<Sum>r < 2. tier_at example_board (r, 0)) \<and>
   contains \<lparr>min_itv = 2, max_itv = 6\<rparr> (\<Sum>r < 2. tier_at example_board (r, 1)) \<and>
   contains \<lparr>min_itv = 2, max_itv = 6\<rparr> (\<Sum>i < 2. tier_at example_board (i, i)) \<and>
   contains \<lparr>min_itv = 2, max_itv = 6\<rparr> (\<Sum>i < 2. tier_at example_board (i, 2 - 1 - i))"
  using generate_board_valid [OF generate_board_example] generate_board_example
  by simp

text \<open>
  C4. On a board returned by \<^verbatim>\<open>generate_board\<close> the \<open>size * size\<close> placed objectives have
  pairwise distinct names.
\<close>

theorem generate_board_distinct_names:
  assumes "generate_board bingo_data rnd n od bd policy = Some (Inr (Board b))"
  shows "length (board_objectives b) = n * n \<and> distinct (map name (board_objectives b))"
proof -
  from assms obtain c where inv: "search_invariant c" and full: "depth c = n * n"
    and n: "size_ctx c = n" and b: "board c = b"
    by (rule generate_board_Board)
  from inv have f: "filled_to b n (n * n)" and d: "distinct (map name (board_objectives b))"
    by (simp_all add: search_invariant_def full n b)
  from filled_to_objectives [OF f] filled_to_length [OF f]
  have "length (board_objectives b) = n * n" by simp
  with d show ?thesis by simp
qed

theorem generate_board_distinct_names_witness:
  "generate_board data (\<lambda>k. 0) 2 (Some \<lparr>min_itv = 1, max_itv = 3\<rparr>)
     \<lparr>min_itv = 2, max_itv = 6\<rparr> ''partial'' = Some (Inr (Board example_board)) \<and>
   length (board_objectives example_board) = 2 * 2 \<and>
   map name (board_objectives example_board) = [''B'', ''C'', ''E'', ''F''] \<and>
   distinct (map name (board_objectives example_board))"
  using generate_board_distinct_names [OF generate_board_example] generate_board_example
  by (simp add: board_objectives_def example_board_def map_filter_simps)

lemma generate_board_unreachable:
  "generate_board data (\<lambda>k. k) 3 (Some \<lparr>min_itv = 1, max_itv = 3\<rparr>)
     \<lparr>min_itv = 100, max_itv = 200\<rparr> ''strict'' =
   Some (Inr (Error_value
     ''Board not found. A board may be possible but simply not found by the generator.''))"
  by code_simp




section \<open>The calls made during a search\<close>

declare helper_calls.simps [simp del] for_objective_calls.simps [simp del]

lemma for_objective_calls_Cons:
  "for_objective_calls bingo_data rnd fuel row col (obj # rest) (c, k) =
     helper_calls bingo_data rnd fuel (place c row col obj, k) @
     (case generate_board_helper bingo_data rnd fuel (place c row col obj, k) of
        Some (Inr (False, c2, k2)) \<Rightarrow>
          if depth c2 > 5 then
            if backtracks (dead_end c2 obj) \<ge> BACKTRACK_LIMIT then []
            else for_objective_calls bingo_data rnd fuel row col rest (dead_end c2 obj, k2)
          else for_objective_calls bingo_data rnd fuel row col rest
                 ((dead_end c2 obj)\<lparr>backtracks := 0\<rparr>, k2)
      | _ \<Rightarrow> [])"
  by (simp add: for_objective_calls.simps)

lemma for_objective_calls_invariant:
  assumes IH: "\<And>c k. search_invariant c \<Longrightarrow>
      \<forall>call \<in> set (helper_calls bingo_data rnd fuel (c, k)). search_invariant (fst (snd call))"
    and inv: "search_invariant c0" and d: "depth c0 < size_ctx c0 * size_ctx c0"
  shows "trying c0 c \<Longrightarrow> \<forall>obj \<in> set pool. admissible c0 obj \<Longrightarrow>
         \<forall>call \<in> set (for_objective_calls bingo_data rnd fuel (depth c0 div size_ctx c0)
                         (depth c0 mod size_ctx c0) pool (c, k)).
           search_invariant (fst (snd call))"
proof (induction pool arbitrary: c k)
  case Nil
  then show ?case by (simp add: for_objective_calls.simps)
next
  case (Cons obj pool)
  let ?row = "depth c0 div size_ctx c0" and ?col = "depth c0 mod size_ctx c0"
  from Cons.prems(2) have adm: "admissible c0 obj" and rest: "\<forall>x \<in> set pool. admissible c0 x"
    by simp_all
  note inv1 = try_objective [OF inv d Cons.prems(1) adm]
  note first = IH [OF inv1, of k]
  consider
    (dead) c2 k2 where
      "generate_board_helper bingo_data rnd fuel (place c ?row ?col obj, k) = Some (Inr (False, c2, k2))"
  | (other) "for_objective_calls bingo_data rnd fuel ?row ?col (obj # pool) (c, k) =
             helper_calls bingo_data rnd fuel (place c ?row ?col obj, k)"
  proof (cases "generate_board_helper bingo_data rnd fuel (place c ?row ?col obj, k)")
    case None
    then show ?thesis by (intro other) (simp add: for_objective_calls_Cons)
  next
    case (Some r)
    show ?thesis
    proof (cases r)
      case (Inl e)
      with Some show ?thesis by (intro other) (simp add: for_objective_calls_Cons)
    next
      case (Inr t)
      obtain res c2 k2 where t: "t = (res, c2, k2)" by (cases t)
      show ?thesis
      proof (cases res)
        case True
        with Some Inr t show ?thesis by (intro other) (simp add: for_objective_calls_Cons)
      next
        case False
        with Some Inr t show ?thesis by (intro dead [of c2 k2]) simp
      qed
    qed
  qed
  then show ?case
  proof cases
    case (dead c2 k2)
    from generate_board_helper_invariant [OF inv1 dead]
    have b2: "board c2 = board (place c ?row ?col obj)" by simp
    note t = dead_end_trying(1,2) [OF inv d Cons.prems(1) adm dead b2]
    from first Cons.IH [OF t(1) rest, of k2] Cons.IH [OF t(2) rest, of k2] show ?thesis
      by (auto simp: for_objective_calls_Cons dead)
  next
    case other
    with first show ?thesis by simp
  qed
qed

lemma helper_calls_invariant:
  "search_invariant c \<Longrightarrow>
   \<forall>call \<in> set (helper_calls bingo_data rnd fuel (c, k)). search_invariant (fst (snd call))"
proof (induction fuel arbitrary: c k)
  case 0
  then show ?case by (simp add: helper_calls.simps)
next
  case (Suc fuel)
  show ?case
  proof (cases "depth c < size_ctx c * size_ctx c")
    case False
    with Suc.prems show ?thesis by (simp add: helper_calls.simps)
  next
    case d: True
    let ?row = "depth c div size_ctx c" and ?col = "depth c mod size_ctx c"
    from Suc.prems(1) have f: "filled_to (board c) (size_ctx c) (depth c)"
      by (simp add: search_invariant_def)
    then have sq: "square_board (board (enter c)) (size_ctx (enter c))"
      by (simp add: filled_to_def)
    note pos = cell_position [OF d]
    from count_bingo_constraints_explicit [OF sq, of ?row ?col] pos
    obtain cs where cs: "count_bingo_constraints (enter c) ?row ?col = Inr cs"
      and itv: "tier_interval cs = admissible_interval (board c) (size_ctx c)
                  (objective_difficulty c) (bingo_difficulty c) ?row ?col"
      by simp
    show ?thesis
    proof (cases "narrow_bingo_pool bingo_data (type_exclusivity c) (tier_interval cs)
                   (exclude_types cs) (objective_names c)")
      case (Inl e)
      with Suc.prems d cs show ?thesis by (simp add: helper_calls.simps)
    next
      case (Inr pool)
      let ?c1 = "(enter c)\<lparr>depth := depth c + 1\<rparr>"
      from narrow_bingo_pool_Inr [OF Inr] itv
      have adm: "\<forall>obj \<in> set (fst (shuffle_array rnd pool k)). admissible c obj"
        by (simp add: set_shuffle_array admissible_def)
      have t: "trying c ?c1"
        using filled_to_unplace [OF f d] by (simp add: trying_def)
      from for_objective_calls_invariant [OF Suc.IH Suc.prems(1) d t adm]
      show ?thesis
        using Suc.prems d cs Inr by (simp add: helper_calls.simps)
    qed
  qed
qed

lemma backtracking_call_made:
  "backtracking_call \<in>
     set (generate_board_calls two_items (\<lambda>k. 0) 2 None \<lparr>min_itv = 3, max_itv = 3\<rparr> ''none'')"
  by code_simp

lemma backtracking_call_fails:
  "generate_board_helper two_items (\<lambda>k. 0) (fst backtracking_call) (snd backtracking_call) =
     Some (Inr (False, (fst (snd backtracking_call))\<lparr>depth_record := 2\<rparr>, 3))"
  by code_simp

declare generate_board_helper_traced.simps [simp del] for_objective_traced.simps [simp del]

lemma helper_traced_0:
  "generate_board_helper_traced bingo_data rnd 0 (context, k) = (None, [(0, context, k)])"
  by (simp add: generate_board_helper_traced.simps)

lemma helper_traced_Suc:
  "generate_board_helper_traced bingo_data rnd (Suc fuel) (context, k) =
    (if depth context \<ge> size_ctx context * size_ctx context
     then (Some (Inr (True, enter context, k)), [(Suc fuel, context, k)])
     else
       (case count_bingo_constraints (enter context) (depth context div size_ctx context)
               (depth context mod size_ctx context) of
          Inl e \<Rightarrow> (Some (Inl e), [(Suc fuel, context, k)])
        | Inr constraints \<Rightarrow>
       (case narrow_bingo_pool bingo_data (type_exclusivity context)
               (tier_interval constraints) (exclude_types constraints) (objective_names context) of
          Inl e \<Rightarrow> (Some (Inl e), [(Suc fuel, context, k)])
        | Inr pool \<Rightarrow>
            if pool = [] then (Some (Inr (False, enter context, k)), [(Suc fuel, context, k)])
            else
              (fst (for_objective_traced bingo_data rnd fuel (depth context div size_ctx context)
                     (depth context mod size_ctx context) (fst (shuffle_array rnd pool k))
                     ((enter context)\<lparr>depth := depth context + 1\<rparr>,
                      snd (shuffle_array rnd pool k))),
               (Suc fuel, context, k) #
               snd (for_objective_traced bingo_data rnd fuel (depth context div size_ctx context)
                     (depth context mod size_ctx context) (fst (shuffle_array rnd pool k))
                     ((enter context)\<lparr>depth := depth context + 1\<rparr>,
                      snd (shuffle_array rnd pool k)))))))"
  by (simp add: generate_board_helper_traced.simps Let_def enter_def
      split: sum.splits prod.splits)

lemma for_objective_traced_Nil:
  "for_objective_traced bingo_data rnd fuel row col [] (context, k) =
     (Some (Inr (False, unplace context row col, k)), [])"
  by (simp add: for_objective_traced.simps unplace_def)

lemma for_objective_traced_Cons:
  "for_objective_traced bingo_data rnd fuel row col (objective # rest) (context, k) =
    (case fst (generate_board_helper_traced bingo_data rnd fuel
                 (place context row col objective, k)) of
       None \<Rightarrow> (None, snd (generate_board_helper_traced bingo_data rnd fuel
                              (place context row col objective, k)))
     | Some (Inl e) \<Rightarrow> (Some (Inl e), snd (generate_board_helper_traced bingo_data rnd fuel
                                             (place context row col objective, k)))
     | Some (Inr (result, context', k')) \<Rightarrow>
         if result then (Some (Inr (True, context', k')),
                         snd (generate_board_helper_traced bingo_data rnd fuel
                                (place context row col objective, k)))
         else if depth context' > 5 then
           if backtracks context' + 1 \<ge> BACKTRACK_LIMIT
           then (Some (Inr (False, unplace (dead_end context' objective) row col, k')),
                 snd (generate_board_helper_traced bingo_data rnd fuel
                        (place context row col objective, k)))
           else (fst (for_objective_traced bingo_data rnd fuel row col rest
                        (dead_end context' objective, k')),
                 snd (generate_board_helper_traced bingo_data rnd fuel
                        (place context row col objective, k)) @
                 snd (for_objective_traced bingo_data rnd fuel row col rest
                        (dead_end context' objective, k')))
         else (fst (for_objective_traced bingo_data rnd fuel row col rest
                      ((dead_end context' objective)\<lparr>backtracks := 0\<rparr>, k')),
               snd (generate_board_helper_traced bingo_data rnd fuel
                      (place context row col objective, k)) @
               snd (for_objective_traced bingo_data rnd fuel row col rest
                      ((dead_end context' objective)\<lparr>backtracks := 0\<rparr>, k'))))"
  by (simp add: for_objective_traced.simps Let_def place_def dead_end_def unplace_def
      split: option.splits sum.splits prod.splits)

text \<open>
  The outcome of the logged functions is the outcome of \<^verbatim>\<open>generate_board_helper\<close> and of its
  loop.
\<close>

lemma for_objective_traced_outcome:
  assumes IH: "\<And>s. fst (generate_board_helper_traced bingo_data rnd fuel s) =
                    generate_board_helper bingo_data rnd fuel s"
  shows "fst (for_objective_traced bingo_data rnd fuel row col pool s) =
         for_objective bingo_data rnd fuel row col pool s"
proof (induction pool arbitrary: s)
  case Nil
  then show ?case by (cases s) (simp add: for_objective_traced_Nil for_objective_Nil)
next
  case (Cons obj pool)
  obtain c k where s: "s = (c, k)" by (cases s)
  show ?case
    unfolding s for_objective_traced_Cons for_objective_Cons IH
    by (simp add: Cons.IH split: option.splits sum.splits prod.splits)
qed

lemma traced_outcome:
  "fst (generate_board_helper_traced bingo_data rnd fuel s) =
   generate_board_helper bingo_data rnd fuel s"
proof (induction fuel arbitrary: s)
  case 0
  then show ?case by (cases s) (simp add: helper_traced_0 helper_0)
next
  case (Suc fuel)
  obtain c k where s: "s = (c, k)" by (cases s)
  show ?case
    unfolding s helper_traced_Suc helper_Suc
    by (simp add: for_objective_traced_outcome [OF Suc.IH] split: sum.splits)
qed

lemma traced_loop_outcome:
  "fst (for_objective_traced bingo_data rnd fuel row col pool s) =
   for_objective bingo_data rnd fuel row col pool s"
  by (rule for_objective_traced_outcome) (rule traced_outcome)

text \<open>The log is the list of calls \<open>helper_calls\<close>.\<close>

lemma for_objective_traced_calls:
  assumes IH: "\<And>s. snd (generate_board_helper_traced bingo_data rnd fuel s) =
                    helper_calls bingo_data rnd fuel s"
  shows "snd (for_objective_traced bingo_data rnd fuel row col pool s) =
         for_objective_calls bingo_data rnd fuel row col pool s"
proof (induction pool arbitrary: s)
  case Nil
  then show ?case
    by (cases s) (simp add: for_objective_traced_Nil for_objective_calls.simps)
next
  case (Cons obj pool)
  obtain c k where s: "s = (c, k)" by (cases s)
  show ?case
    unfolding s for_objective_traced_Cons for_objective_calls_Cons IH traced_outcome
    by (simp add: Cons.IH dead_end_def split: option.splits sum.splits prod.splits bool.splits)
qed

lemma traced_calls:
  "snd (generate_board_helper_traced bingo_data rnd fuel s) = helper_calls bingo_data rnd fuel s"
proof (induction fuel arbitrary: s)
  case 0
  then show ?case by (cases s) (simp add: helper_traced_0 helper_calls.simps)
next
  case (Suc fuel)
  obtain c k where s: "s = (c, k)" by (cases s)
  show ?case
    unfolding s helper_traced_Suc
    by (simp add: helper_calls.simps for_objective_traced_calls [OF Suc.IH] split: sum.splits)
qed

lemma helper_traced_first:
  "\<exists>calls. snd (generate_board_helper_traced bingo_data rnd fuel (c, k)) = (fuel, c, k) # calls"
proof (cases fuel)
  case 0
  then show ?thesis by (simp add: helper_traced_0)
next
  case (Suc m)
  then show ?thesis by (simp add: helper_traced_Suc split: sum.splits)
qed

lemma for_objective_traced_first:
  "\<exists>later. snd (for_objective_traced bingo_data rnd fuel row col (obj # rest) (c, k)) =
     snd (generate_board_helper_traced bingo_data rnd fuel (place c row col obj, k)) @ later"
  by (simp add: for_objective_traced_Cons split: option.splits sum.splits prod.splits)

lemma for_objective_dead_end:
  assumes "generate_board_helper bingo_data rnd fuel (place c row col obj, k)
             = Some (Inr (False, c2, k2))"
  shows "for_objective bingo_data rnd fuel row col (obj # rest) (c, k) =
         for_objective bingo_data rnd fuel row col
           (if depth c2 > 5 \<and> backtracks c2 + 1 \<ge> BACKTRACK_LIMIT then [] else rest)
           (c2\<lparr>backtracks := (if depth c2 > 5 then backtracks c2 + 1 else 0),
               objective_names := objective_names c2 - {name obj}\<rparr>, k2)"
  using assms by (cases c2) (simp add: for_objective_Cons for_objective_Nil dead_end_def)

lemma helper_names_at_return:
  assumes inv: "search_invariant c"
    and h: "generate_board_helper bingo_data rnd fuel (c, k) = Some (Inr (res, c', k'))"
  shows "objective_names c' = set (map name (board_objectives (board c')))"
proof (cases res)
  case True
  with generate_board_helper_invariant [OF inv h] show ?thesis
    by (simp add: search_invariant_def)
next
  case False
  with generate_board_helper_invariant [OF inv h] generate_board_helper_frame [OF h] inv
  show ?thesis by (simp add: search_invariant_def)
qed

text \<open>
  C5. During a call of \<^verbatim>\<open>generate_board\<close>, at every call of \<^verbatim>\<open>generate_board_helper\<close>, the
  first one and every recursive one, \<open>objective_names\<close> is exactly the set of the names of
  the non-null cells of the board. The calls are those of the log, whose outcome is that of
  \<^verbatim>\<open>generate_board_helper\<close> and of its loop, and which \<^verbatim>\<open>generate_board\<close> starts on the empty
  board. Every placement adds the name of the placed item: the loop, at an item, first
  calls \<^verbatim>\<open>generate_board_helper\<close> with the item in the cell and its name inserted. Every
  removal deletes it: when that call returns \<^verbatim>\<open>false\<close>, the loop goes on with the name
  deleted. And a call entered in a state of the search invariant returns with
  \<open>objective_names\<close> equal to the set of the names on the board.
\<close>

theorem objective_names_invariant:
  "fst (generate_board_helper_traced bingo_data rnd fuel s) =
     generate_board_helper bingo_data rnd fuel s \<and>
   fst (for_objective_traced bingo_data rnd fuel row col pool s) =
     for_objective bingo_data rnd fuel row col pool s \<and>
   generate_board bingo_data rnd n od bd policy =
     (case fst (generate_board_helper_traced bingo_data rnd (n * n + 1)
                  (initial_context n od bd policy, 0)) of
        None \<Rightarrow> None
      | Some (Inl e) \<Rightarrow> Some (Inl e)
      | Some (Inr (result, context, k)) \<Rightarrow>
          if \<not> result then
            Some (Inr (Error_value
              ''Board not found. A board may be possible but simply not found by the generator.''))
          else Some (Inr (Board (board context)))) \<and>
   (\<forall>call \<in> set (snd (generate_board_helper_traced bingo_data rnd (n * n + 1)
                         (initial_context n od bd policy, 0))).
      objective_names (fst (snd call)) =
        set (map name (board_objectives (board (fst (snd call)))))) \<and>
   (\<exists>calls. snd (generate_board_helper_traced bingo_data rnd fuel (c, k)) =
      (fuel, c, k) # calls) \<and>
   (\<exists>later. snd (for_objective_traced bingo_data rnd fuel row col (obj # rest) (c, k)) =
      snd (generate_board_helper_traced bingo_data rnd fuel
             (c\<lparr>board := (board c)[row := (board c ! row)[col := Some obj]],
                objective_names := insert (name obj) (objective_names c)\<rparr>, k)) @ later) \<and>
   (generate_board_helper bingo_data rnd fuel
      (c\<lparr>board := (board c)[row := (board c ! row)[col := Some obj]],
         objective_names := insert (name obj) (objective_names c)\<rparr>, k)
      = Some (Inr (False, c2, k2)) \<longrightarrow>
    for_objective bingo_data rnd fuel row col (obj # rest) (c, k) =
      for_objective bingo_data rnd fuel row col
        (if depth c2 > 5 \<and> backtracks c2 + 1 \<ge> BACKTRACK_LIMIT then [] else rest)
        (c2\<lparr>backtracks := (if depth c2 > 5 then backtracks c2 + 1 else 0),
            objective_names := objective_names c2 - {name obj}\<rparr>, k2)) \<and>
   (search_invariant c0 \<longrightarrow>
    generate_board_helper bingo_data rnd fuel0 (c0, k0) = Some (Inr (res, c1, k1)) \<longrightarrow>
    objective_names c1 = set (map name (board_objectives (board c1))))"
proof -
  have calls: "\<forall>call \<in> set (snd (generate_board_helper_traced bingo_data rnd (n * n + 1)
                         (initial_context n od bd policy, 0))).
      objective_names (fst (snd call)) =
        set (map name (board_objectives (board (fst (snd call)))))"
    using helper_calls_invariant [OF search_invariant_initial]
    by (simp add: traced_calls search_invariant_def)
  have start: "generate_board bingo_data rnd n od bd policy =
     (case fst (generate_board_helper_traced bingo_data rnd (n * n + 1)
                  (initial_context n od bd policy, 0)) of
        None \<Rightarrow> None
      | Some (Inl e) \<Rightarrow> Some (Inl e)
      | Some (Inr (result, context, k)) \<Rightarrow>
          if \<not> result then
            Some (Inr (Error_value
              ''Board not found. A board may be possible but simply not found by the generator.''))
          else Some (Inr (Board (board context))))"
    unfolding traced_outcome by (rule generate_board_unfold)
  note placed = for_objective_traced_first [of bingo_data rnd fuel row col obj rest c k,
      unfolded place_def]
  note removed = for_objective_dead_end [of bingo_data rnd fuel c row col obj k c2 k2 rest,
      unfolded place_def]
  from traced_outcome [of bingo_data rnd fuel s]
    traced_loop_outcome [of bingo_data rnd fuel row col pool s]
    start calls helper_traced_first [of bingo_data rnd fuel c k] placed removed
    helper_names_at_return [of c0 bingo_data rnd fuel0 k0 res c1 k1]
  show ?thesis by (intro conjI impI) assumption+
qed

text \<open>
  C5 on a search that backtracks: the catalog \<open>two_items\<close> on a 2 by 2 board whose lines are
  to sum to 3. The loop of the first call places \<open>B\<close> in the first cell and calls
  \<^verbatim>\<open>generate_board_helper\<close>, which is \<open>backtracking_call\<close>; that call returns \<^verbatim>\<open>false\<close>, and the
  loop goes on to \<open>A\<close> with \<open>objective_names\<close> empty again.
\<close>

lemma backtracking_call_logged:
  "backtracking_call \<in>
     set (snd (generate_board_helper_traced two_items (\<lambda>k. 0) (2 * 2 + 1)
                 (initial_context 2 None \<lparr>min_itv = 3, max_itv = 3\<rparr> ''none'', 0)))"
  using backtracking_call_made
  by (simp only: traced_calls generate_board_calls_def)

lemma backtracking_call_invariant: "search_invariant (fst (snd backtracking_call))"
  using helper_calls_invariant [OF search_invariant_initial] backtracking_call_made
  unfolding generate_board_calls_def by blast

lemma backtracking_call_placed:
  "((initial_context 2 None \<lparr>min_itv = 3, max_itv = 3\<rparr> ''none'')\<lparr>depth := 1\<rparr>)
     \<lparr>board := (board ((initial_context 2 None \<lparr>min_itv = 3, max_itv = 3\<rparr> ''none'')
                        \<lparr>depth := 1\<rparr>))
                [0 := (board ((initial_context 2 None \<lparr>min_itv = 3, max_itv = 3\<rparr> ''none'')
                                \<lparr>depth := 1\<rparr>) ! 0)
                        [0 := Some \<lparr>name = ''B'', types = [''b''], tier = 2\<rparr>]],
      objective_names :=
        insert (name \<lparr>name = ''B'', types = [''b''], tier = 2\<rparr>)
          (objective_names ((initial_context 2 None \<lparr>min_itv = 3, max_itv = 3\<rparr> ''none'')
                              \<lparr>depth := 1\<rparr>))\<rparr>
   = fst (snd backtracking_call)"
  by (simp add: initial_context_def backtracking_call_def numeral_2_eq_2)

lemma backtracking_call_returns:
  "generate_board_helper two_items (\<lambda>k. 0) 4 (fst (snd backtracking_call), 2) =
     Some (Inr (False, (fst (snd backtracking_call))\<lparr>depth_record := 2\<rparr>, 3))"
proof -
  have "fst backtracking_call = 4" and "snd backtracking_call = (fst (snd backtracking_call), 2)"
    by (simp_all add: backtracking_call_def)
  with backtracking_call_fails show ?thesis by simp
qed

theorem objective_names_invariant_witness:
  "backtracking_call \<in>
     set (snd (generate_board_helper_traced two_items (\<lambda>k. 0) (2 * 2 + 1)
                 (initial_context 2 None \<lparr>min_itv = 3, max_itv = 3\<rparr> ''none'', 0))) \<and>
   objective_names (fst (snd backtracking_call)) = {''B''} \<and>
   set (map name (board_objectives (board (fst (snd backtracking_call))))) = {''B''} \<and>
   search_invariant (fst (snd backtracking_call)) \<and>
   generate_board_helper two_items (\<lambda>k. 0) 4 (fst (snd backtracking_call), 2) =
     Some (Inr (False, (fst (snd backtracking_call))\<lparr>depth_record := 2\<rparr>, 3)) \<and>
   objective_names ((fst (snd backtracking_call))\<lparr>depth_record := 2\<rparr>) =
     set (map name (board_objectives
       (board ((fst (snd backtracking_call))\<lparr>depth_record := 2\<rparr>)))) \<and>
   for_objective two_items (\<lambda>k. 0) 4 0 0
     [\<lparr>name = ''B'', types = [''b''], tier = 2\<rparr>, \<lparr>name = ''A'', types = [''a''], tier = 1\<rparr>]
     ((initial_context 2 None \<lparr>min_itv = 3, max_itv = 3\<rparr> ''none'')\<lparr>depth := 1\<rparr>, 2) =
   for_objective two_items (\<lambda>k. 0) 4 0 0 [\<lparr>name = ''A'', types = [''a''], tier = 1\<rparr>]
     ((fst (snd backtracking_call))\<lparr>depth_record := 2, backtracks := 0, objective_names := {}\<rparr>, 3)"
proof -
  note t = objective_names_invariant [where bingo_data = two_items and rnd = "\<lambda>k. 0"
      and n = 2 and od = None and bd = "\<lparr>min_itv = 3, max_itv = 3\<rparr>" and policy = "''none''"
      and fuel = 4 and row = 0 and col = 0
      and c = "(initial_context 2 None \<lparr>min_itv = 3, max_itv = 3\<rparr> ''none'')\<lparr>depth := 1\<rparr>"
      and k = 2 and obj = "\<lparr>name = ''B'', types = [''b''], tier = 2\<rparr>"
      and rest = "[\<lparr>name = ''A'', types = [''a''], tier = 1\<rparr>]"
      and ?c2.0 = "(fst (snd backtracking_call))\<lparr>depth_record := 2\<rparr>" and ?k2.0 = 3
      and ?c0.0 = "fst (snd backtracking_call)" and ?fuel0.0 = 4 and ?k0.0 = 2
      and res = False and ?c1.0 = "(fst (snd backtracking_call))\<lparr>depth_record := 2\<rparr>"
      and ?k1.0 = 3, unfolded backtracking_call_placed]
  from t have calls: "\<forall>call \<in> set (snd (generate_board_helper_traced two_items (\<lambda>k. 0) (2 * 2 + 1)
                         (initial_context 2 None \<lparr>min_itv = 3, max_itv = 3\<rparr> ''none'', 0))).
      objective_names (fst (snd call)) =
        set (map name (board_objectives (board (fst (snd call)))))"
    by blast
  from calls backtracking_call_logged
  have names: "objective_names (fst (snd backtracking_call)) =
        set (map name (board_objectives (board (fst (snd backtracking_call)))))"
    by blast
  have B: "objective_names (fst (snd backtracking_call)) = {''B''}"
    by (simp add: backtracking_call_def)
  from t backtracking_call_invariant backtracking_call_returns
  have returned: "objective_names ((fst (snd backtracking_call))\<lparr>depth_record := 2\<rparr>) =
     set (map name (board_objectives
       (board ((fst (snd backtracking_call))\<lparr>depth_record := 2\<rparr>))))"
    by blast
  from t backtracking_call_returns
  have "for_objective two_items (\<lambda>k. 0) 4 0 0
     [\<lparr>name = ''B'', types = [''b''], tier = 2\<rparr>, \<lparr>name = ''A'', types = [''a''], tier = 1\<rparr>]
     ((initial_context 2 None \<lparr>min_itv = 3, max_itv = 3\<rparr> ''none'')\<lparr>depth := 1\<rparr>, 2) =
    for_objective two_items (\<lambda>k. 0) 4 0 0
      (if depth ((fst (snd backtracking_call))\<lparr>depth_record := 2\<rparr>) > 5 \<and>
          backtracks ((fst (snd backtracking_call))\<lparr>depth_record := 2\<rparr>) + 1 \<ge> BACKTRACK_LIMIT
       then [] else [\<lparr>name = ''A'', types = [''a''], tier = 1\<rparr>])
      (((fst (snd backtracking_call))\<lparr>depth_record := 2\<rparr>)
         \<lparr>backtracks := (if depth ((fst (snd backtracking_call))\<lparr>depth_record := 2\<rparr>) > 5
                         then backtracks ((fst (snd backtracking_call))\<lparr>depth_record := 2\<rparr>) + 1
                         else 0),
          objective_names := objective_names ((fst (snd backtracking_call))\<lparr>depth_record := 2\<rparr>)
                               - {name \<lparr>name = ''B'', types = [''b''], tier = 2\<rparr>}\<rparr>, 3)"
    by blast
  then have removed: "for_objective two_items (\<lambda>k. 0) 4 0 0
     [\<lparr>name = ''B'', types = [''b''], tier = 2\<rparr>, \<lparr>name = ''A'', types = [''a''], tier = 1\<rparr>]
     ((initial_context 2 None \<lparr>min_itv = 3, max_itv = 3\<rparr> ''none'')\<lparr>depth := 1\<rparr>, 2) =
   for_objective two_items (\<lambda>k. 0) 4 0 0 [\<lparr>name = ''A'', types = [''a''], tier = 1\<rparr>]
     ((fst (snd backtracking_call))\<lparr>depth_record := 2, backtracks := 0, objective_names := {}\<rparr>, 3)"
    by (simp add: backtracking_call_def)
  from backtracking_call_logged names B backtracking_call_invariant backtracking_call_returns
    returned removed
  show ?thesis by (intro conjI) simp_all
qed

text \<open>
  C6. When a call of \<^verbatim>\<open>generate_board_helper\<close> made during a call of \<^verbatim>\<open>generate_board\<close>
  returns \<^verbatim>\<open>false\<close>, the board, \<open>depth\<close> and \<open>objective_names\<close> are what they were when the
  call was entered; so it is for every call entered in a state of the search invariant.
  A call that finds no candidate returns \<^verbatim>\<open>false\<close> with the context it was entered with,
  but for \<open>depth_record\<close>.
\<close>

theorem failure_restores_state:
  "(\<forall>call \<in> set (generate_board_calls bingo_data rnd n od bd policy).
      \<forall>c' k'. generate_board_helper bingo_data rnd (fst call) (snd call)
                 = Some (Inr (False, c', k')) \<longrightarrow>
        board c' = board (fst (snd call)) \<and> depth c' = depth (fst (snd call)) \<and>
        objective_names c' = objective_names (fst (snd call))) \<and>
   (search_invariant c0 \<longrightarrow>
    generate_board_helper bingo_data rnd fuel0 (c0, k0) = Some (Inr (False, c1, k1)) \<longrightarrow>
    board c1 = board c0 \<and> depth c1 = depth c0 \<and> objective_names c1 = objective_names c0) \<and>
   (depth c < size_ctx c * size_ctx c \<longrightarrow>
    count_bingo_constraints (c\<lparr>depth_record := max (depth_record c) (depth c)\<rparr>)
      (depth c div size_ctx c) (depth c mod size_ctx c) = Inr cs \<longrightarrow>
    narrow_bingo_pool bingo_data (type_exclusivity c) (tier_interval cs) (exclude_types cs)
      (objective_names c) = Inr [] \<longrightarrow>
    generate_board_helper bingo_data rnd (Suc fuel) (c, k) =
      Some (Inr (False, c\<lparr>depth_record := max (depth_record c) (depth c)\<rparr>, k)))"
proof -
  have restored: "board c' = board c \<and> depth c' = depth c \<and> objective_names c' = objective_names c"
    if inv: "search_invariant c"
      and h: "generate_board_helper bingo_data rnd f (c, k) = Some (Inr (False, c', k'))"
    for c c' f k k'
    using generate_board_helper_invariant [OF inv h] generate_board_helper_frame [OF h]
    by simp
  have calls: "\<forall>call \<in> set (generate_board_calls bingo_data rnd n od bd policy).
      \<forall>c' k'. generate_board_helper bingo_data rnd (fst call) (snd call)
                 = Some (Inr (False, c', k')) \<longrightarrow>
        board c' = board (fst (snd call)) \<and> depth c' = depth (fst (snd call)) \<and>
        objective_names c' = objective_names (fst (snd call))"
  proof (intro ballI allI impI)
    fix call c' k'
    assume call: "call \<in> set (generate_board_calls bingo_data rnd n od bd policy)"
      and fails: "generate_board_helper bingo_data rnd (fst call) (snd call)
        = Some (Inr (False, c', k'))"
    from call have inv: "search_invariant (fst (snd call))"
      unfolding generate_board_calls_def
      using helper_calls_invariant [OF search_invariant_initial] by blast
    from fails have h: "generate_board_helper bingo_data rnd (fst call)
        (fst (snd call), snd (snd call)) = Some (Inr (False, c', k'))" by simp
    from restored [OF inv h]
    show "board c' = board (fst (snd call)) \<and> depth c' = depth (fst (snd call)) \<and>
        objective_names c' = objective_names (fst (snd call))" .
  qed
  have e: "enter c = c\<lparr>depth_record := max (depth_record c) (depth c)\<rparr>"
    by (simp add: enter_def max_def)
  have empty: "generate_board_helper bingo_data rnd (Suc fuel) (c, k) =
      Some (Inr (False, c\<lparr>depth_record := max (depth_record c) (depth c)\<rparr>, k))"
    if "depth c < size_ctx c * size_ctx c"
      "count_bingo_constraints (c\<lparr>depth_record := max (depth_record c) (depth c)\<rparr>)
        (depth c div size_ctx c) (depth c mod size_ctx c) = Inr cs"
      "narrow_bingo_pool bingo_data (type_exclusivity c) (tier_interval cs) (exclude_types cs)
        (objective_names c) = Inr []"
    using that by (simp add: helper_Suc e)
  from calls restored [of c0 fuel0 k0 c1 k1] empty show ?thesis
    by blast
qed

lemma unreachable_constraints:
  "count_bingo_constraints
     (unreachable_context\<lparr>depth_record :=
        max (depth_record unreachable_context) (depth unreachable_context)\<rparr>)
     (depth unreachable_context div size_ctx unreachable_context)
     (depth unreachable_context mod size_ctx unreachable_context) =
   Inr \<lparr>tier_interval = \<lparr>min_itv = 100, max_itv = 3\<rparr>, exclude_types = []\<rparr>"
  by code_simp

lemma unreachable_pool:
  "narrow_bingo_pool data (type_exclusivity unreachable_context)
     (tier_interval \<lparr>tier_interval = \<lparr>min_itv = 100, max_itv = 3\<rparr>, exclude_types = []\<rparr>)
     (exclude_types \<lparr>tier_interval = \<lparr>min_itv = 100, max_itv = 3\<rparr>, exclude_types = []\<rparr>)
     (objective_names unreachable_context) = Inr []"
  by code_simp

theorem failure_restores_state_witness:
  "backtracking_call \<in>
     set (generate_board_calls two_items (\<lambda>k. 0) 2 None \<lparr>min_itv = 3, max_itv = 3\<rparr> ''none'') \<and>
   search_invariant (fst (snd backtracking_call)) \<and>
   generate_board_helper two_items (\<lambda>k. 0) (fst backtracking_call) (snd backtracking_call) =
     Some (Inr (False, (fst (snd backtracking_call))\<lparr>depth_record := 2\<rparr>, 3)) \<and>
   board ((fst (snd backtracking_call))\<lparr>depth_record := 2\<rparr>) = board (fst (snd backtracking_call)) \<and>
   depth ((fst (snd backtracking_call))\<lparr>depth_record := 2\<rparr>) = depth (fst (snd backtracking_call)) \<and>
   objective_names ((fst (snd backtracking_call))\<lparr>depth_record := 2\<rparr>) =
     objective_names (fst (snd backtracking_call)) \<and>
   depth unreachable_context < size_ctx unreachable_context * size_ctx unreachable_context \<and>
   generate_board_helper data (\<lambda>k. 0) (Suc 0) (unreachable_context, 0) =
     Some (Inr (False, unreachable_context\<lparr>depth_record :=
        max (depth_record unreachable_context) (depth unreachable_context)\<rparr>, 0))"
proof -
  note made = backtracking_call_made and fails = backtracking_call_fails
  from made have inv: "search_invariant (fst (snd backtracking_call))"
    unfolding generate_board_calls_def
    using helper_calls_invariant [OF search_invariant_initial] by blast
  note T = failure_restores_state [of two_items "\<lambda>k. 0" 2 None "\<lparr>min_itv = 3, max_itv = 3\<rparr>"
      "''none''"]
  from T [THEN conjunct1, rule_format, OF made fails]
  have restored: "board ((fst (snd backtracking_call))\<lparr>depth_record := 2\<rparr>) =
      board (fst (snd backtracking_call)) \<and>
    depth ((fst (snd backtracking_call))\<lparr>depth_record := 2\<rparr>) = depth (fst (snd backtracking_call)) \<and>
    objective_names ((fst (snd backtracking_call))\<lparr>depth_record := 2\<rparr>) =
      objective_names (fst (snd backtracking_call))" .
  have d: "depth unreachable_context < size_ctx unreachable_context * size_ctx unreachable_context"
    by (simp add: unreachable_context_def initial_context_def)
  from failure_restores_state [of data "\<lambda>k. 0" 0 None "\<lparr>min_itv = 3, max_itv = 3\<rparr>" "''none''",
      THEN conjunct2, THEN conjunct2, rule_format, OF d unreachable_constraints unreachable_pool]
  have empty: "generate_board_helper data (\<lambda>k. 0) (Suc 0) (unreachable_context, 0) =
     Some (Inr (False, unreachable_context\<lparr>depth_record :=
        max (depth_record unreachable_context) (depth unreachable_context)\<rparr>, 0))" .
  from made inv fails restored d empty show ?thesis
    by (intro conjI) blast+
qed

section \<open>The backtrack limit\<close>

lemma for_objective_first_cells:
  "depth c \<le> 5 \<Longrightarrow>
   for_objective bingo_data rnd fuel row col pool (c, k) =
     for_objective_unlimited bingo_data rnd fuel row col pool (c, k)"
proof (induction pool arbitrary: c k)
  case Nil
  show ?case by (simp add: for_objective_Nil)
next
  case (Cons obj pool)
  show ?case
  proof (cases "generate_board_helper bingo_data rnd fuel (place c row col obj, k)")
    case None
    then show ?thesis by (simp add: for_objective_Cons)
  next
    case (Some r)
    show ?thesis
    proof (cases r)
      case (Inl e)
      with Some show ?thesis by (simp add: for_objective_Cons)
    next
      case (Inr t)
      obtain res c2 k2 where t: "t = (res, c2, k2)" by (cases t)
      show ?thesis
      proof (cases res)
        case True
        with Some Inr t show ?thesis by (simp add: for_objective_Cons)
      next
        case False
        with Some Inr t have h: "generate_board_helper bingo_data rnd fuel (place c row col obj, k)
            = Some (Inr (False, c2, k2))" by simp
        from generate_board_helper_frame [OF h] have d: "depth c2 = depth c" by simp
        with Cons.prems have "depth ((dead_end c2 obj)\<lparr>backtracks := 0\<rparr>) \<le> 5" by simp
        from Cons.IH [OF this] d Cons.prems show ?thesis
          by (simp add: for_objective_Cons h)
      qed
    qed
  qed
qed

text \<open>
  C7. In the candidate loop of a cell inside the board (the loop runs with the depth
  already incremented, so \<open>depth \<ge> 1\<close>), after a dead end with \<open>depth > 5\<close> and the counter at
  the limit of 100, no further candidate is tried: the loop returns \<^verbatim>\<open>false\<close> at once,
  whatever candidates remain. With \<open>depth \<le> 5\<close> (the loops of the first five cells) the loop
  is the loop without the limit: \<open>backtracks\<close> is reset after every dead end and the next
  candidate is tried.
\<close>

theorem backtrack_limit:
  assumes "row < length (board c)" and "col < length (board c ! row)" and "0 < depth c"
  shows "BACKTRACK_LIMIT = 100 \<and>
   (generate_board_helper bingo_data rnd fuel (place c row col obj, k) = Some (Inr (False, c2, k2)) \<longrightarrow>
    depth c > 5 \<longrightarrow> backtracks c2 + 1 \<ge> 100 \<longrightarrow>
    for_objective bingo_data rnd fuel row col (obj # rest) (c, k) =
      Some (Inr (False, unplace (dead_end c2 obj) row col, k2))) \<and>
   (depth c \<le> 5 \<longrightarrow>
    for_objective bingo_data rnd fuel row col pool (c, k) =
      for_objective_unlimited bingo_data rnd fuel row col pool (c, k))"
proof (intro conjI impI)
  show "BACKTRACK_LIMIT = 100" by (simp add: BACKTRACK_LIMIT_def)
next
  assume h: "generate_board_helper bingo_data rnd fuel (place c row col obj, k)
      = Some (Inr (False, c2, k2))"
    and d: "depth c > 5" and b: "backtracks c2 + 1 \<ge> 100"
  from generate_board_helper_frame [OF h] have "depth c2 = depth c" by simp
  with d b show "for_objective bingo_data rnd fuel row col (obj # rest) (c, k) =
      Some (Inr (False, unplace (dead_end c2 obj) row col, k2))"
    by (simp add: for_objective_Cons h BACKTRACK_LIMIT_def)
next
  assume "depth c \<le> 5"
  then show "for_objective bingo_data rnd fuel row col pool (c, k) =
      for_objective_unlimited bingo_data rnd fuel row col pool (c, k)"
    by (rule for_objective_first_cells)
qed

lemma limit_dead_end:
  "generate_board_helper data (\<lambda>k. 0) 3 (place limit_context 2 0 objective_S, 0) =
     Some (Inr (False, place limit_context 2 0 objective_S, 0))"
  by code_simp

theorem backtrack_limit_witness:
  "2 < length (board limit_context) \<and> 0 < length (board limit_context ! 2) \<and>
   0 < depth limit_context \<and>
   generate_board_helper data (\<lambda>k. 0) 3 (place limit_context 2 0 objective_S, 0) =
     Some (Inr (False, place limit_context 2 0 objective_S, 0)) \<and>
   depth limit_context > 5 \<and>
   backtracks (place limit_context 2 0 objective_S) + 1 \<ge> 100 \<and>
   for_objective data (\<lambda>k. 0) 3 2 0 [objective_S, objective_T] (limit_context, 0) =
     Some (Inr (False, unplace (dead_end (place limit_context 2 0 objective_S) objective_S) 2 0, 0)) \<and>
   0 < length (board first_cell_context) \<and> 0 < length (board first_cell_context ! 0) \<and>
   0 < depth first_cell_context \<and>
   depth first_cell_context \<le> 5 \<and>
   for_objective two_items (\<lambda>k. 0) 4 0 0
       [\<lparr>name = ''B'', types = [''b''], tier = 2\<rparr>, \<lparr>name = ''A'', types = [''a''], tier = 1\<rparr>]
       (first_cell_context, 2) =
     for_objective_unlimited two_items (\<lambda>k. 0) 4 0 0
       [\<lparr>name = ''B'', types = [''b''], tier = 2\<rparr>, \<lparr>name = ''A'', types = [''a''], tier = 1\<rparr>]
       (first_cell_context, 2)"
proof -
  have l: "2 < length (board limit_context)" "0 < length (board limit_context ! 2)"
    "0 < depth limit_context"
    by (simp_all add: limit_context_def)
  have d: "depth limit_context > 5"
    and b: "backtracks (place limit_context 2 0 objective_S) + 1 \<ge> 100"
    by (simp_all add: limit_context_def place_def)
  have f: "0 < length (board first_cell_context)" "0 < length (board first_cell_context ! 0)"
    "0 < depth first_cell_context" "depth first_cell_context \<le> 5"
    by (simp_all add: first_cell_context_def)
  note T = backtrack_limit [OF l, of data "\<lambda>k. 0" 3 objective_S 0
      "place limit_context 2 0 objective_S" 0 "[objective_T]"]
  from T limit_dead_end d b
  have stop: "for_objective data (\<lambda>k. 0) 3 2 0 [objective_S, objective_T] (limit_context, 0) =
     Some (Inr (False, unplace (dead_end (place limit_context 2 0 objective_S) objective_S) 2 0, 0))"
    by blast
  from backtrack_limit [OF f(1,2,3), of two_items "\<lambda>k. 0" 4] f(4)
  have all: "for_objective two_items (\<lambda>k. 0) 4 0 0
       [\<lparr>name = ''B'', types = [''b''], tier = 2\<rparr>, \<lparr>name = ''A'', types = [''a''], tier = 1\<rparr>]
       (first_cell_context, 2) =
     for_objective_unlimited two_items (\<lambda>k. 0) 4 0 0
       [\<lparr>name = ''B'', types = [''b''], tier = 2\<rparr>, \<lparr>name = ''A'', types = [''a''], tier = 1\<rparr>]
       (first_cell_context, 2)"
    by blast
  from l limit_dead_end d b stop f all show ?thesis
    by (intro conjI)
qed

section \<open>The model on the runs of generate_board\<close>

lemma writes_inside_board:
  assumes "call \<in> set (generate_board_calls bingo_data rnd n od bd policy)"
    and "depth (fst (snd call)) < size_ctx (fst (snd call)) * size_ctx (fst (snd call))"
  shows "depth (fst (snd call)) div size_ctx (fst (snd call)) < length (board (fst (snd call))) \<and>
         depth (fst (snd call)) mod size_ctx (fst (snd call)) <
           length (board (fst (snd call)) ! (depth (fst (snd call)) div size_ctx (fst (snd call))))"
proof -
  from assms(1) have "search_invariant (fst (snd call))"
    unfolding generate_board_calls_def
    using helper_calls_invariant [OF search_invariant_initial] by blast
  then have "square_board (board (fst (snd call))) (size_ctx (fst (snd call)))"
    by (simp add: search_invariant_def filled_to_def)
  with cell_position(1,2) [OF assms(2)] show ?thesis
    by (simp add: square_board_def list_all_length)
qed

lemma narrow_bingo_pool_unknown:
  assumes "\<not> known_policy policy"
  shows "narrow_bingo_pool bingo_data policy itv forbidden used =
           Inl (Error (''Unhandled switch case: '' @ policy))"
  using assms by (simp add: known_policy_def narrow_bingo_pool_def)

lemma initial_context_fields:
  "depth (initial_context n od bd policy) = 0"
  "size_ctx (initial_context n od bd policy) = n"
  "type_exclusivity (initial_context n od bd policy) = policy"
  by (simp_all add: initial_context_def)

lemma generate_board_returns: "generate_board bingo_data rnd n od bd policy \<noteq> None"
proof (cases "known_policy policy")
  case True
  then show ?thesis
    by (cases rule: generate_board_result [of policy bingo_data rnd n od bd]) simp_all
next
  case False
  let ?c = "initial_context n od bd policy"
  show ?thesis
  proof (cases "n = 0")
    case True
    then show ?thesis
      by (simp add: generate_board_unfold helper_Suc initial_context_fields)
  next
    case n: False
    from search_invariant_initial [of n od bd policy]
    have sq: "square_board (board (enter ?c)) (size_ctx (enter ?c))"
      by (simp add: search_invariant_def filled_to_def)
    from n have pos: "0 div n < size_ctx (enter ?c)" "0 mod n < size_ctx (enter ?c)"
      by (simp_all add: initial_context_fields)
    from count_bingo_constraints_explicit [OF sq pos]
    obtain cs where "count_bingo_constraints (enter ?c) (0 div n) (0 mod n) = Inr cs"
      by blast
    with n False show ?thesis
      by (simp add: generate_board_unfold helper_Suc initial_context_fields
          narrow_bingo_pool_unknown)
  qed
qed

section \<open>generate_board within the limits of the engine\<close>

lemma generate_board_within_unfold:
  assumes "n \<le> 4294967295"
  shows "generate_board_within stack bingo_data rnd n od bd policy =
    (case generate_board_helper bingo_data rnd stack (initial_context n od bd policy, 0) of
       None \<Rightarrow> Inl RangeError
     | Some (Inl e) \<Rightarrow> Inl e
     | Some (Inr (result, context, k)) \<Rightarrow>
         if \<not> result then
           Inr (Error_value
             ''Board not found. A board may be possible but simply not found by the generator.'')
         else Inr (Board (board context)))"
  using assms by (simp add: generate_board_within_def initial_context_def Let_def)

text \<open>
  With an array length for \<open>size\<close> and a stack that holds \<open>size * size + 1\<close> nested calls, the
  engine's limits are not reached, and the call is \<open>generate_board\<close>.
\<close>

lemma generate_board_within_generate_board:
  assumes n: "n \<le> 4294967295" and stack: "n * n + 1 \<le> stack"
    and r: "generate_board bingo_data rnd n od bd policy = Some r"
  shows "generate_board_within stack bingo_data rnd n od bd policy = r"
proof -
  from r obtain r' where
    h: "generate_board_helper bingo_data rnd (n * n + 1) (initial_context n od bd policy, 0)
          = Some r'"
    by (auto simp: generate_board_unfold split: option.splits)
  note h' = generate_board_helper_fuel [OF h stack]
  from r show ?thesis
    unfolding generate_board_within_unfold [OF n] generate_board_unfold h h'
    by (auto split: sum.splits if_splits)
qed

text \<open>
  C9, as the specification states it, does not hold of the code: for every size,
  \<^verbatim>\<open>generate_board\<close> is to return a board or an \<^verbatim>\<open>Error\<close> value and never to throw. With the
  catalog, the intervals and the policy of the module's own call and \<open>size = 2^32\<close>,
  \<^verbatim>\<open>new Array(size)\<close> throws a \<^verbatim>\<open>RangeError\<close> out of \<^verbatim>\<open>generate_board\<close>.
\<close>

theorem generate_board_terminates_counterexample:
  "generate_board_within 10000 data zero_source 4294967296
     (Some \<lparr>min_itv = 10, max_itv = 14\<rparr>) \<lparr>min_itv = 50, max_itv = 70\<rparr> ''strict''
     = Inl RangeError"
  by (simp add: generate_board_within_def)

text \<open>
  So does a search that nests deeper than the stack holds: here a stack of two calls, for
  the search that fills the four cells of \<open>example_board\<close>.
\<close>

lemma example_search_nests_deeper:
  "generate_board_helper data zero_source 2
     (initial_context 2 (Some \<lparr>min_itv = 1, max_itv = 3\<rparr>) \<lparr>min_itv = 2, max_itv = 6\<rparr>
        ''partial'', 0) = None"
  by code_simp

lemma generate_board_within_stack_overflow:
  "generate_board_within 2 data zero_source 2
     (Some \<lparr>min_itv = 1, max_itv = 3\<rparr>) \<lparr>min_itv = 2, max_itv = 6\<rparr> ''partial''
     = Inl RangeError"
  by (simp add: generate_board_within_unfold example_search_nests_deeper)

text \<open>
  C9, amended. For every size that is an array length (at most \<open>2^32 - 1\<close>) and whose
  \<open>size * size + 1\<close> nested calls the call stack holds, every pair of intervals, every
  random source, each of the three policies and every catalog, \<^verbatim>\<open>generate_board\<close>
  terminates: it returns a board or the \<^verbatim>\<open>Error\<close> value, and throws nothing. An exhausted
  search is that returned value.
\<close>

theorem generate_board_within_terminates:
  assumes "policy = ''none'' \<or> policy = ''partial'' \<or> policy = ''strict''"
    and "n \<le> 4294967295" and "n * n + 1 \<le> stack"
  shows "(\<exists>b. generate_board_within stack bingo_data rnd n od bd policy = Inr (Board b)) \<or>
         generate_board_within stack bingo_data rnd n od bd policy = Inr (Error_value
           ''Board not found. A board may be possible but simply not found by the generator.'')"
proof -
  from assms(1) have "known_policy policy" by (simp add: known_policy_def)
  then show ?thesis
  proof (cases rule: generate_board_result [of policy bingo_data rnd n od bd])
    case (found c k)
    from generate_board_within_generate_board [OF assms(2,3) found(2)] show ?thesis by simp
  next
    case (not_found c k)
    from generate_board_within_generate_board [OF assms(2,3) not_found(2)] show ?thesis by simp
  qed
qed

text \<open>
  The amended C9 on three runs: the per-line range \<open>[100, 200]\<close>, which no item of the
  catalog \<open>data\<close> fits; the catalog \<open>two_items\<close>, where the search places items, backtracks
  and is exhausted; and the run that finds \<open>example_board\<close>.
\<close>

lemma generate_board_two_items:
  "generate_board two_items (\<lambda>k. 0) 2 None \<lparr>min_itv = 3, max_itv = 3\<rparr> ''none'' =
   Some (Inr (Error_value
     ''Board not found. A board may be possible but simply not found by the generator.''))"
  by code_simp

lemma three_runs_within:
  "generate_board_within 10000 data (\<lambda>k. k) 3 (Some \<lparr>min_itv = 1, max_itv = 3\<rparr>)
     \<lparr>min_itv = 100, max_itv = 200\<rparr> ''strict'' =
   Inr (Error_value
     ''Board not found. A board may be possible but simply not found by the generator.'')"
  "generate_board_within 10000 two_items (\<lambda>k. 0) 2 None \<lparr>min_itv = 3, max_itv = 3\<rparr> ''none'' =
   Inr (Error_value
     ''Board not found. A board may be possible but simply not found by the generator.'')"
  "generate_board_within 10000 data (\<lambda>k. 0) 2 (Some \<lparr>min_itv = 1, max_itv = 3\<rparr>)
     \<lparr>min_itv = 2, max_itv = 6\<rparr> ''partial'' = Inr (Board example_board)"
  by (rule generate_board_within_generate_board
        [OF _ _ generate_board_unreachable] generate_board_within_generate_board
        [OF _ _ generate_board_two_items] generate_board_within_generate_board
        [OF _ _ generate_board_example]; simp)+

theorem generate_board_within_terminates_witness:
  "(''strict'' = ''none'' \<or> ''strict'' = ''partial'' \<or> ''strict'' = ''strict'') \<and>
   (3::nat) \<le> 4294967295 \<and> (3::nat) * 3 + 1 \<le> 10000 \<and>
   generate_board_within 10000 data (\<lambda>k. k) 3 (Some \<lparr>min_itv = 1, max_itv = 3\<rparr>)
     \<lparr>min_itv = 100, max_itv = 200\<rparr> ''strict'' =
   Inr (Error_value
     ''Board not found. A board may be possible but simply not found by the generator.'') \<and>
   generate_board_within 10000 two_items (\<lambda>k. 0) 2 None \<lparr>min_itv = 3, max_itv = 3\<rparr> ''none'' =
   Inr (Error_value
     ''Board not found. A board may be possible but simply not found by the generator.'') \<and>
   generate_board_within 10000 data (\<lambda>k. 0) 2 (Some \<lparr>min_itv = 1, max_itv = 3\<rparr>)
     \<lparr>min_itv = 2, max_itv = 6\<rparr> ''partial'' = Inr (Board example_board)"
proof -
  have p: "''strict'' = ''none'' \<or> ''strict'' = ''partial'' \<or> ''strict'' = ''strict''"
    and n: "(3::nat) \<le> 4294967295" and s: "(3::nat) * 3 + 1 \<le> 10000"
    by simp_all
  note t = generate_board_within_terminates [OF p n s, of data "\<lambda>k. k"
      "Some \<lparr>min_itv = 1, max_itv = 3\<rparr>" "\<lparr>min_itv = 100, max_itv = 200\<rparr>"]
  from t three_runs_within p n s show ?thesis by blast
qed

end
